theory Spec2Isabelle
  imports Main "HOL-Library.Multiset"
begin

section \<open>Python values and failures\<close>

text \<open>
  The program is Python 3. Its integers are unbounded (\<open>int\<close>), a grid is a list of
  rows, and an out-of-range subscript raises \<open>IndexError\<close>. Every raise of the source
  is a value \<open>Inl e\<close> of the model; nothing in the program catches an exception, so
  the first raise ends the run.
\<close>

datatype error = IndexError | TypeError | KeyError

type_synonym grid = "int list list"

text \<open>Python subscripting: a negative index counts from the end.\<close>

definition py_index :: "nat \<Rightarrow> int \<Rightarrow> error + nat" where
  "py_index n i =
     (let j = (if i < 0 then i + int n else i)
      in if 0 \<le> j \<and> j < int n then Inr (nat j) else Inl IndexError)"

definition getitem :: "'a list \<Rightarrow> int \<Rightarrow> error + 'a" where
  "getitem xs i = (case py_index (length xs) i of Inl e \<Rightarrow> Inl e | Inr j \<Rightarrow> Inr (xs ! j))"

definition setitem :: "'a list \<Rightarrow> int \<Rightarrow> 'a \<Rightarrow> error + 'a list" where
  "setitem xs i v = (case py_index (length xs) i of Inl e \<Rightarrow> Inl e | Inr j \<Rightarrow> Inr (xs[j := v]))"

text \<open>\<open>g[r][c]\<close> and \<open>g[r][c] = v\<close> on a list of lists.\<close>

definition getitem2 :: "grid \<Rightarrow> int \<Rightarrow> int \<Rightarrow> error + int" where
  "getitem2 g r c = (case getitem g r of Inl e \<Rightarrow> Inl e | Inr row \<Rightarrow> getitem row c)"

definition setitem2 :: "grid \<Rightarrow> int \<Rightarrow> int \<Rightarrow> int \<Rightarrow> error + grid" where
  "setitem2 g r c v =
     (case getitem g r of
        Inl e \<Rightarrow> Inl e
      | Inr row \<Rightarrow> (case setitem row c v of Inl e \<Rightarrow> Inl e | Inr row' \<Rightarrow> setitem g r row'))"

text \<open>A \<open>for\<close> loop over a list, threading the loop's variables; a raise ends it.\<close>

fun for_loop :: "'a list \<Rightarrow> ('a \<Rightarrow> 's \<Rightarrow> error + 's) \<Rightarrow> 's \<Rightarrow> error + 's" where
  "for_loop [] body s = Inr s"
| "for_loop (x # xs) body s =
     (case body x s of Inl e \<Rightarrow> Inl e | Inr s' \<Rightarrow> for_loop xs body s')"

section \<open>Board.py\<close>

subsection \<open>The class\<close>

text \<open>
  One constructor field per attribute that \<open>Board.__init__\<close> sets, in its order
  (\<open>_hash\<close>, a cache of the hash of \<open>state\<close>, is left out: hashing and equality are
  functions of \<open>state\<close> alone). The source's \<open>parent\<close> is a reference; the model holds
  the parent's value as it was when the child was made. Through that link the program
  reads only \<open>state\<close> (in \<open>generate_children\<close>) and \<open>parent\<close> (in \<open>get_cost\<close>), neither of
  which changes after construction.
\<close>

datatype board = Board
  (state: grid)
  (children: "board list")
  (board_size: nat)
  (parent: "board option")
  (m_dist: int)
  (m_tile_count: int)
  (cost: int)
  (depth: int)
  (empty_row: int)
  (empty_col: int)
  (valid_positions: "(int \<times> int) list")

definition set_children :: "board list \<Rightarrow> board \<Rightarrow> board" where
  "set_children v b = (case b of Board s ch n p md mt c d er ec vp \<Rightarrow> Board s v n p md mt c d er ec vp)"

definition set_m_dist :: "int \<Rightarrow> board \<Rightarrow> board" where
  "set_m_dist v b = (case b of Board s ch n p md mt c d er ec vp \<Rightarrow> Board s ch n p v mt c d er ec vp)"

definition set_m_tile_count :: "int \<Rightarrow> board \<Rightarrow> board" where
  "set_m_tile_count v b = (case b of Board s ch n p md mt c d er ec vp \<Rightarrow> Board s ch n p md v c d er ec vp)"

definition set_depth :: "int \<Rightarrow> board \<Rightarrow> board" where
  "set_depth v b = (case b of Board s ch n p md mt c d er ec vp \<Rightarrow> Board s ch n p md mt c v er ec vp)"

definition set_valid_positions :: "(int \<times> int) list \<Rightarrow> board \<Rightarrow> board" where
  "set_valid_positions v b = (case b of Board s ch n p md mt c d er ec vp \<Rightarrow> Board s ch n p md mt c d er ec v)"

text \<open>The class attribute \<open>Board.final\<close>.\<close>

definition final :: grid where
  "final = [[1, 2, 3], [4, 5, 6], [7, 8, 0]]"

text \<open>
  \<open>Board.__init__\<close>: the scan for the blank reads \<open>state[row][col]\<close> for every
  \<open>row, col < len(state)\<close>, keeps the last zero it meets, and raises on a row that is
  too short.
\<close>

definition scan_blank :: "grid \<Rightarrow> nat \<Rightarrow> error + (int \<times> int)" where
  "scan_blank st n =
     for_loop [0..<n] (\<lambda>row. for_loop [0..<n] (\<lambda>col e.
         case getitem2 st (int row) (int col) of
           Inl x \<Rightarrow> Inl x
         | Inr v \<Rightarrow> Inr (if v = 0 then (int row, int col) else e)))
       (- 1, - 1)"

definition Board_init :: "grid \<Rightarrow> board option \<Rightarrow> error + board" where
  "Board_init st par =
     (case scan_blank st (length st) of
        Inl x \<Rightarrow> Inl x
      | Inr (er, ec) \<Rightarrow> Inr (Board st [] (length st) par (- 1) (- 1) 0 0 er ec []))"

text \<open>\<open>__eq__\<close> and \<open>__lt__\<close>.\<close>

definition board_eq :: "board \<Rightarrow> board \<Rightarrow> bool" where
  "board_eq a b = (state a = state b)"

definition board_lt :: "board \<Rightarrow> board \<Rightarrow> bool" where
  "board_lt a b =
     (if cost a = cost b \<and> state a = state b then depth a < depth b else cost a < cost b)"

subsection \<open>Successors\<close>

text \<open>
  \<open>get_surrounding_valid_positions\<close>: \<open>range(e - 1, e + 2)\<close> is the three values
  \<open>e - 1, e, e + 1\<close>; \<open>is_empty_row ^ is_empty_col == 1\<close> parses as
  \<open>(is_empty_row ^ is_empty_col) == 1\<close>, true when exactly one of the two holds.
  The positions are appended to the attribute, which the method returns.
\<close>

definition surrounding :: "nat \<Rightarrow> int \<Rightarrow> int \<Rightarrow> (int \<times> int) list" where
  "surrounding n er ec =
     concat (map (\<lambda>i. if i < 0 \<or> i \<ge> int n then []
                      else concat (map (\<lambda>j. if j < 0 \<or> j \<ge> int n then []
                                             else if (er = i) \<noteq> (ec = j) then [(i, j)] else [])
                                   [ec - 1, ec, ec + 1]))
                 [er - 1, er, er + 1])"

definition get_surrounding_valid_positions :: "board \<Rightarrow> board" where
  "get_surrounding_valid_positions b =
     set_valid_positions
       (valid_positions b @ surrounding (board_size b) (empty_row b) (empty_col b)) b"

text \<open>
  The visited filter is a Python set of boards, or \<open>None\<close>. Membership goes through
  \<open>__hash__\<close> and \<open>__eq__\<close>, both functions of \<open>state\<close>, so the set is modelled by the
  list of the states it holds.
\<close>

definition swap_blank :: "board \<Rightarrow> int \<times> int \<Rightarrow> error + grid" where
  "swap_blank b position =
     (case position of (row, col) \<Rightarrow>
        (case getitem2 (state b) row col of
           Inl e \<Rightarrow> Inl e
         | Inr v \<Rightarrow>
            (case setitem2 (state b) (empty_row b) (empty_col b) v of
               Inl e \<Rightarrow> Inl e
             | Inr g \<Rightarrow> setitem2 g row col 0)))"

definition child_step :: "board \<Rightarrow> grid list option \<Rightarrow> int \<times> int \<Rightarrow> board list \<Rightarrow> error + board list" where
  "child_step b visited position chs =
     (case swap_blank b position of
        Inl e \<Rightarrow> Inl e
      | Inr g \<Rightarrow>
          if (case parent b of None \<Rightarrow> False | Some p \<Rightarrow> state p = g) then Inr chs
          else (case Board_init g (Some b) of
                  Inl e \<Rightarrow> Inl e
                | Inr child0 \<Rightarrow>
                    let child = set_depth (1 + depth b) child0;
                        found = (case visited of None \<Rightarrow> False | Some vs \<Rightarrow> state child \<in> set vs)
                    in if \<not> found then Inr (chs @ [child]) else Inr chs))"

text \<open>
  \<open>generate_children\<close> returns the list and the board as the call leaves it (its
  \<open>valid_positions\<close> and \<open>children\<close> attributes updated).
\<close>

definition generate_children :: "board \<Rightarrow> grid list option \<Rightarrow> error + (board list \<times> board)" where
  "generate_children b visited =
     (if length (children b) \<noteq> 0 then Inr (children b, b)
      else let b1 = get_surrounding_valid_positions b
           in (case for_loop (valid_positions b1) (child_step b1 visited) (children b1) of
                 Inl e \<Rightarrow> Inl e
               | Inr chs \<Rightarrow> Inr (chs, set_children chs b1)))"

definition is_final_state :: "board \<Rightarrow> bool" where
  "is_final_state b = (state b = final)"

subsection \<open>Heuristics\<close>

text \<open>
  \<open>misplaced_tile\<close> reads \<open>Board.final[row][col]\<close>, which raises beyond the 3 by 3
  goal grid. Both methods cache their result in the board; they return the value and
  the board as the call leaves it.
\<close>

definition misplaced_count :: "board \<Rightarrow> error + int" where
  "misplaced_count b =
     for_loop [0..<board_size b] (\<lambda>row. for_loop [0..<board_size b] (\<lambda>col cnt.
         case getitem2 (state b) (int row) (int col) of
           Inl e \<Rightarrow> Inl e
         | Inr v \<Rightarrow>
             if v \<noteq> 0 then
               (case getitem2 final (int row) (int col) of
                  Inl e \<Rightarrow> Inl e
                | Inr w \<Rightarrow> Inr (if v \<noteq> w then cnt + 1 else cnt))
             else Inr cnt))
       0"

definition misplaced_tile :: "board \<Rightarrow> error + (int \<times> board)" where
  "misplaced_tile b =
     (if m_tile_count b \<noteq> - 1 then Inr (m_tile_count b, b)
      else (case misplaced_count b of
              Inl e \<Rightarrow> Inl e
            | Inr v \<Rightarrow> Inr (v, set_m_tile_count v b)))"

text \<open>
  In \<open>manhattan_distance\<close>, \<open>k / n\<close> is Python 3's true division. In the first branch
  \<open>n\<close> divides \<open>k\<close>, so the quotient is the integer \<open>k div n\<close>; in the second,
  \<open>int(k / n)\<close> rounds the quotient towards zero. \<open>k % n\<close> has the sign of \<open>n > 0\<close>, as
  HOL's \<open>mod\<close> on \<open>int\<close>. The results are floats with integral values (exact below
  \<open>2^53\<close>); the model holds their values.
\<close>

definition trunc_div :: "int \<Rightarrow> int \<Rightarrow> int" where
  "trunc_div k n = (if k < 0 then - ((- k) div n) else k div n)"

definition goal_rc :: "int \<Rightarrow> nat \<Rightarrow> int \<times> int" where
  "goal_rc k n =
     (if k mod int n = 0 then (k div int n - 1, int n - 1)
      else (trunc_div k (int n), k mod int n - 1))"

definition manhattan_sum :: "board \<Rightarrow> error + int" where
  "manhattan_sum b =
     for_loop [0..<board_size b] (\<lambda>row. for_loop [0..<board_size b] (\<lambda>col d.
         case getitem2 (state b) (int row) (int col) of
           Inl e \<Rightarrow> Inl e
         | Inr k \<Rightarrow>
             if k = 0 then Inr d
             else (case goal_rc k (board_size b) of
                     (r, c) \<Rightarrow> Inr (d + \<bar>r - int row\<bar> + \<bar>c - int col\<bar>))))
       0"

definition manhattan_distance :: "board \<Rightarrow> error + (int \<times> board)" where
  "manhattan_distance b =
     (if m_dist b \<noteq> - 1 then Inr (m_dist b, b)
      else (case manhattan_sum b of
              Inl e \<Rightarrow> Inl e
            | Inr v \<Rightarrow> Inr (v, set_m_dist v b)))"

subsection \<open>Static methods\<close>

fun get_cost :: "board option \<Rightarrow> int" where
  "get_cost None = 0"
| "get_cost (Some (Board s ch n p md mt c d er ec vp)) = 1 + get_cost p"


section \<open>The heap of \<open>heapq\<close>\<close>

text \<open>
  \<open>Search.py\<close> keeps its frontier in a list through \<open>heapq.heappush\<close> and
  \<open>heapq.heappop\<close> of the standard library. They are modelled after the library's
  own Python code (\<open>_siftdown\<close>, \<open>_siftup\<close>), over a comparison \<open>lt\<close> for the \<open>&lt;\<close>
  of the items: which of several least items comes out first depends on it. The sift
  loops subscript only positions below the length of the list.
\<close>

function siftdown_loop :: "('a \<Rightarrow> 'a \<Rightarrow> bool) \<Rightarrow> 'a \<Rightarrow> nat \<Rightarrow> 'a list \<Rightarrow> nat \<Rightarrow> 'a list \<times> nat" where
  "siftdown_loop lt newitem startpos heap pos =
     (if pos > startpos then
        (let parentpos = (pos - 1) div 2;
             parent_item = heap ! parentpos
         in if lt newitem parent_item
            then siftdown_loop lt newitem startpos (heap[pos := parent_item]) parentpos
            else (heap, pos))
      else (heap, pos))"
  by pat_completeness auto
termination
  by (relation "measure (\<lambda>(lt, newitem, startpos, heap, pos). pos)") auto

definition siftdown :: "('a \<Rightarrow> 'a \<Rightarrow> bool) \<Rightarrow> 'a list \<Rightarrow> nat \<Rightarrow> nat \<Rightarrow> 'a list" where
  "siftdown lt heap startpos pos =
     (let newitem = heap ! pos
      in case siftdown_loop lt newitem startpos heap pos of (h, p) \<Rightarrow> h[p := newitem])"

function siftup_loop :: "('a \<Rightarrow> 'a \<Rightarrow> bool) \<Rightarrow> nat \<Rightarrow> 'a list \<Rightarrow> nat \<Rightarrow> nat \<Rightarrow> 'a list \<times> nat" where
  "siftup_loop lt endpos heap pos childpos =
     (if childpos < endpos then
        (let rightpos = childpos + 1;
             childpos' = (if rightpos < endpos \<and> \<not> lt (heap ! childpos) (heap ! rightpos)
                          then rightpos else childpos)
         in siftup_loop lt endpos (heap[pos := heap ! childpos']) childpos' (2 * childpos' + 1))
      else (heap, pos))"
  by pat_completeness auto
termination
  by (relation "measure (\<lambda>(lt, endpos, heap, pos, childpos). endpos - childpos)") auto

declare siftdown_loop.simps [simp del]
declare siftup_loop.simps [simp del]

definition siftup :: "('a \<Rightarrow> 'a \<Rightarrow> bool) \<Rightarrow> 'a list \<Rightarrow> nat \<Rightarrow> 'a list" where
  "siftup lt heap pos =
     (let endpos = length heap;
          startpos = pos;
          newitem = heap ! pos
      in case siftup_loop lt endpos heap pos (2 * pos + 1) of
           (h, p) \<Rightarrow> siftdown lt (h[p := newitem]) startpos p)"

definition heappush :: "('a \<Rightarrow> 'a \<Rightarrow> bool) \<Rightarrow> 'a list \<Rightarrow> 'a \<Rightarrow> 'a list" where
  "heappush lt heap item = siftdown lt (heap @ [item]) 0 (length heap)"

definition heappop :: "('a \<Rightarrow> 'a \<Rightarrow> bool) \<Rightarrow> 'a list \<Rightarrow> error + ('a \<times> 'a list)" where
  "heappop lt heap =
     (if heap = [] then Inl IndexError
      else let lastelt = last heap;
               rest = butlast heap
           in if rest \<noteq> [] then Inr (rest ! 0, siftup lt (rest[0 := lastelt]) 0)
              else Inr (lastelt, rest))"

text \<open>
  The items are tuples \<open>(cost, board)\<close>. Python compares tuples by the first position
  where the two differ under \<open>==\<close>, with \<open>&lt;\<close> there; tuples equal at every position
  are not less.
\<close>

definition entry_lt :: "int \<times> board \<Rightarrow> int \<times> board \<Rightarrow> bool" where
  "entry_lt x y =
     (if fst x \<noteq> fst y then fst x < fst y
      else if board_eq (snd x) (snd y) then False
      else board_lt (snd x) (snd y))"

section \<open>Search.py\<close>

definition UNIFORM_COST :: int where "UNIFORM_COST = 0"
definition A_STAR :: int where "A_STAR = 1"
definition MISPLACED_TILE :: int where "MISPLACED_TILE = 0"
definition MANHATTAN_DISTANCE :: int where "MANHATTAN_DISTANCE = 1"

text \<open>
  The attributes of a \<open>Search\<close> object but \<open>start_time\<close> and \<open>end_time\<close>, which hold
  wall-clock readings. \<open>exit(-1)\<close> in the constructor is the failure \<open>SystemExit\<close>.
\<close>

datatype failure = Raised error | SystemExit int

record search =
  algorithm :: int
  heuristic :: int
  initial_state :: grid
  max_queue_size :: int
  depth_reported :: int
  count_nodes_expanded :: int

definition Search_init :: "int \<Rightarrow> int \<Rightarrow> grid \<Rightarrow> failure + search" where
  "Search_init alg heur init =
     (if alg \<noteq> A_STAR \<and> alg \<noteq> UNIFORM_COST then Inl (SystemExit (- 1))
      else if alg = A_STAR \<and> (heur \<noteq> MANHATTAN_DISTANCE \<and> heur \<noteq> MISPLACED_TILE)
        then Inl (SystemExit (- 1))
      else Inr \<lparr>algorithm = alg, heuristic = heur, initial_state = init,
                max_queue_size = 0, depth_reported = 0, count_nodes_expanded = 0\<rparr>)"

text \<open>\<open>get_heuristic_cost\<close> returns the cost and the node as the call leaves it.\<close>

definition get_heuristic_cost :: "search \<Rightarrow> board option \<Rightarrow> error + (int \<times> board option)" where
  "get_heuristic_cost self node =
     (case node of
        None \<Rightarrow> Inr (0, None)
      | Some nd \<Rightarrow>
          if heuristic self = MANHATTAN_DISTANCE then
            (case manhattan_distance nd of Inl e \<Rightarrow> Inl e | Inr (v, nd') \<Rightarrow> Inr (v, Some nd'))
          else if heuristic self = MISPLACED_TILE then
            (case misplaced_tile nd of Inl e \<Rightarrow> Inl e | Inr (v, nd') \<Rightarrow> Inr (v, Some nd'))
          else Inr (0, Some nd))"

definition expand :: "board \<Rightarrow> grid list option \<Rightarrow> error + (board list \<times> board)" where
  "expand b visited = generate_children b visited"

subsection \<open>Uniform Cost Search\<close>

text \<open>
  The variables of the loop of \<open>uc_search\<close>: the locals \<open>nodes\<close> and \<open>visited\<close> and the
  object whose counters the loop updates. One pass of the \<open>while\<close> loop either raises,
  returns, or goes round again.
\<close>

datatype ('r, 's) pass = Raise error | Return 'r | Again 's

record uc_vars =
  uc_nodes :: "(int \<times> board) list"
  uc_visited :: "grid list"
  uc_self :: search

definition push_children :: "int \<Rightarrow> board list \<Rightarrow> (int \<times> board) list \<Rightarrow> (int \<times> board) list" where
  "push_children c chs nodes = foldl (\<lambda>h child. heappush entry_lt h (c, child)) nodes chs"

definition uc_pass :: "uc_vars \<Rightarrow> (board option \<times> search, uc_vars) pass" where
  "uc_pass v =
     (if 0 < length (uc_nodes v) then
        (case heappop entry_lt (uc_nodes v) of
           Inl e \<Rightarrow> Raise e
         | Inr ((cost_b, b), nodes1) \<Rightarrow>
             if is_final_state b then Return (Some b, uc_self v)
             else
               (let visited1 = List.insert (state b) (uc_visited v)
                in (case expand b (Some visited1) of
                      Inl e \<Rightarrow> Raise e
                    | Inr (chs, b') \<Rightarrow>
                       (let self1 = (uc_self v)\<lparr>count_nodes_expanded := count_nodes_expanded (uc_self v) + 1\<rparr>;
                            nodes2 = push_children (1 + cost_b) chs nodes1;
                            self2 = (if int (length nodes2) > max_queue_size self1
                                     then self1\<lparr>max_queue_size := int (length nodes2)\<rparr> else self1)
                        in Again \<lparr>uc_nodes = nodes2, uc_visited = visited1, uc_self = self2\<rparr>))))
      else Return (None, uc_self v))"

partial_function (option) uc_loop :: "uc_vars \<Rightarrow> (error + board option \<times> search) option" where
  "uc_loop v =
     (case uc_pass v of
        Again v' \<Rightarrow> uc_loop v'
      | Raise e \<Rightarrow> Some (Inl e)
      | Return r \<Rightarrow> Some (Inr r))"

definition uc_start :: "search \<Rightarrow> error + uc_vars" where
  "uc_start self =
     (case Board_init (initial_state self) None of
        Inl e \<Rightarrow> Inl e
      | Inr root \<Rightarrow> Inr \<lparr>uc_nodes = heappush entry_lt [] (0, root), uc_visited = [], uc_self = self\<rparr>)"

definition uc_search :: "search \<Rightarrow> (error + board option \<times> search) option" where
  "uc_search self = (case uc_start self of Inl e \<Rightarrow> Some (Inl e) | Inr v \<Rightarrow> uc_loop v)"

subsection \<open>A*\<close>

text \<open>
  \<open>g_x\<close> is a dictionary keyed by boards, that is by their states; \<open>visited\<close> is a set
  of tuples \<open>(cost, board)\<close>, modelled by the list of the pairs of a cost and a state.
\<close>

record astar_vars =
  as_nodes :: "(int \<times> board) list"
  as_g_x :: "grid \<rightharpoonup> int"
  as_visited :: "(int \<times> grid) list"
  as_self :: search

definition astar_child :: "board \<Rightarrow> board \<Rightarrow> astar_vars \<Rightarrow> error + astar_vars" where
  "astar_child b child v =
     (case as_g_x v (state b) of
        None \<Rightarrow> Inl KeyError
      | Some gb \<Rightarrow>
         (let child_g_x = 1 + gb;
              g1 = (if state child \<notin> dom (as_g_x v) then (as_g_x v)(state child \<mapsto> 100000000)
                    else as_g_x v)
          in (case g1 (state child) of
                None \<Rightarrow> Inl KeyError
              | Some gc \<Rightarrow>
                  if child_g_x < gc then
                    (let g2 = g1(state child \<mapsto> child_g_x)
                     in (case get_heuristic_cost (as_self v) (Some child) of
                           Inl e \<Rightarrow> Inl e
                         | Inr (h_x, node) \<Rightarrow>
                            (let child' = (case node of None \<Rightarrow> child | Some c \<Rightarrow> c);
                                 child_total_cost = h_x + child_g_x;
                                 n = (child_total_cost, state child')
                             in if n \<notin> set (as_visited v)
                                then Inr (v\<lparr>as_nodes := heappush entry_lt (as_nodes v) (child_total_cost, child'),
                                            as_g_x := g2,
                                            as_visited := List.insert n (as_visited v)\<rparr>)
                                else Inr (v\<lparr>as_g_x := g2\<rparr>))))
                  else Inr (v\<lparr>as_g_x := g1\<rparr>))))"

definition astar_pass :: "astar_vars \<Rightarrow> (board option \<times> search, astar_vars) pass" where
  "astar_pass v =
     (if 0 < length (as_nodes v) then
        (case heappop entry_lt (as_nodes v) of
           Inl e \<Rightarrow> Raise e
         | Inr ((cost_b, b), nodes1) \<Rightarrow>
             if is_final_state b then Return (Some b, as_self v)
             else
               (case expand b None of
                  Inl e \<Rightarrow> Raise e
                | Inr (chs, b') \<Rightarrow>
                   (let self1 = (as_self v)\<lparr>count_nodes_expanded := count_nodes_expanded (as_self v) + 1\<rparr>
                    in (case for_loop chs (astar_child b')
                               (v\<lparr>as_nodes := nodes1, as_self := self1\<rparr>) of
                          Inl e \<Rightarrow> Raise e
                        | Inr v2 \<Rightarrow>
                            Again (if int (length (as_nodes v2)) > max_queue_size (as_self v2)
                                   then v2\<lparr>as_self := (as_self v2)\<lparr>max_queue_size := int (length (as_nodes v2))\<rparr>\<rparr>
                                   else v2)))))
      else Return (None, as_self v))"

partial_function (option) astar_loop :: "astar_vars \<Rightarrow> (error + board option \<times> search) option" where
  "astar_loop v =
     (case astar_pass v of
        Again v' \<Rightarrow> astar_loop v'
      | Raise e \<Rightarrow> Some (Inl e)
      | Return r \<Rightarrow> Some (Inr r))"

definition astar_start :: "search \<Rightarrow> error + astar_vars" where
  "astar_start self =
     (case Board_init (initial_state self) None of
        Inl e \<Rightarrow> Inl e
      | Inr board_start \<Rightarrow>
          Inr \<lparr>as_nodes = heappush entry_lt [] (0, board_start),
               as_g_x = [state board_start \<mapsto> 0],
               as_visited = [],
               as_self = self\<rparr>)"

definition astar_search :: "search \<Rightarrow> (error + board option \<times> search) option" where
  "astar_search self = (case astar_start self of Inl e \<Rightarrow> Some (Inl e) | Inr v \<Rightarrow> astar_loop v)"

subsection \<open>Statistics\<close>

text \<open>
  \<open>print_search_stats\<close> prints; the model returns what it prints (but the time) and
  the object with its \<open>depth\<close> attribute set.
\<close>

datatype report = Not_solvable int int | Solution int int int

definition print_search_stats :: "search \<Rightarrow> board option \<Rightarrow> report \<times> search" where
  "print_search_stats self node =
     (case node of
        None \<Rightarrow> (Not_solvable (count_nodes_expanded self) (max_queue_size self), self)
      | Some nd \<Rightarrow>
          let self1 = self\<lparr>depth_reported := get_cost (parent nd)\<rparr>
          in (Solution (depth_reported self1) (count_nodes_expanded self1) (max_queue_size self1), self1))"


text \<open>
  \<open>search\<close>: the counters are reset, the chosen loop runs, the statistics are
  printed and the final node is returned.
\<close>

definition search_run :: "search \<Rightarrow> (error + (board option \<times> report \<times> search)) option" where
  "search_run self =
     (let self0 = self\<lparr>max_queue_size := 0, depth_reported := 0, count_nodes_expanded := 0\<rparr>;
          outcome = (if algorithm self0 = UNIFORM_COST then uc_search self0
                     else if algorithm self0 = A_STAR then astar_search self0
                     else Some (Inr (None, self0)))
      in case outcome of
           None \<Rightarrow> None
         | Some (Inl e) \<Rightarrow> Some (Inl e)
         | Some (Inr (final_node, self1)) \<Rightarrow>
             (case print_search_stats self1 final_node of
                (rep, self2) \<Rightarrow> Some (Inr (final_node, rep, self2))))"

subsection \<open>The goal grid's initialisation routine\<close>

text \<open>
  \<open>Board.get_board_size(size)\<close> iterates over its argument itself (\<open>for i in size\<close>),
  not over \<open>range(size)\<close>. Over an integer that raises \<open>TypeError\<close>. Over a list, the
  first pass evaluates \<open>(i * size) + j + 1\<close>, a list plus an integer, and raises
  \<open>TypeError\<close> before the assignment; over an empty list nothing is done. The routine
  takes the goal grid and returns it as the call leaves it.
\<close>

datatype pyval = PyInt int | PyList "int list"

definition get_board_size :: "grid \<Rightarrow> pyval \<Rightarrow> error + grid" where
  "get_board_size fin size_arg =
     (case size_arg of
        PyInt d \<Rightarrow> Inl TypeError
      | PyList xs \<Rightarrow> for_loop xs (\<lambda>i. for_loop xs (\<lambda>j f. Inl TypeError)) fin)"

section \<open>The specification's notions\<close>

text \<open>The number of parent links from a board up to the root of its chain.\<close>

fun edges_to_root :: "board \<Rightarrow> nat" where
  "edges_to_root (Board s ch n p md mt c d er ec vp) =
     (case p of None \<Rightarrow> 0 | Some q \<Rightarrow> 1 + edges_to_root q)"

text \<open>The grid that the initialisation routine is specified to produce for dimension \<open>d\<close>.\<close>

definition spec_goal_cells :: "nat \<Rightarrow> grid" where
  "spec_goal_cells d = map (\<lambda>i. map (\<lambda>j. int (i * d + j + 1)) [0..<d]) [0..<d]"


text \<open>
  A grid is square when every row is as long as the grid; its cells are non-negative
  when none holds a negative number. A board of dimension \<open>n\<close> holds each of
  \<open>0 .. n * n - 1\<close> once.
\<close>

definition square :: "grid \<Rightarrow> bool" where
  "square st = list_all (\<lambda>row. length row = length st) st"

definition nonneg_cells :: "grid \<Rightarrow> bool" where
  "nonneg_cells st = list_all (list_all (\<lambda>k. 0 \<le> k)) st"

definition perm_board :: "nat \<Rightarrow> grid \<Rightarrow> bool" where
  "perm_board n st =
     (length st = n \<and> square st \<and> mset (concat st) = mset (map int [0..<n * n]))"

text \<open>
  The Manhattan distance in the specification's words: over the nonzero cells, the
  sum of \<open>|row - goal_row| + |col - goal_col|\<close>, the goal position of the value \<open>k\<close>
  being \<open>((k - 1) div n, (k - 1) mod n)\<close>.
\<close>

definition manhattan_spec :: "grid \<Rightarrow> int" where
  "manhattan_spec st =
     (\<Sum>row\<leftarrow>[0..<length st]. \<Sum>col\<leftarrow>[0..<length st].
        (let k = st ! row ! col
         in if k \<noteq> 0
            then \<bar>int row - (k - 1) div int (length st)\<bar> + \<bar>int col - (k - 1) mod int (length st)\<bar>
            else 0))"

text \<open>
  The misplaced-tile count in the specification's words: the number of cells whose
  value is nonzero and differs from the goal grid at that position.
\<close>

definition misplaced_spec :: "grid \<Rightarrow> int" where
  "misplaced_spec st =
     (\<Sum>row\<leftarrow>[0..<length st]. \<Sum>col\<leftarrow>[0..<length st].
        (if st ! row ! col \<noteq> 0 \<and> st ! row ! col \<noteq> final ! row ! col then 1 else 0))"

text \<open>The last zero of a square grid in row-major order, \<open>(-1, -1)\<close> when it has none.\<close>

definition blank_of :: "grid \<Rightarrow> int \<times> int" where
  "blank_of st =
     foldl (\<lambda>e row. foldl (\<lambda>e col. if st ! row ! col = 0 then (int row, int col) else e) e
                       [0..<length st])
       (- 1, - 1) [0..<length st]"

text \<open>The root board of the goal grid, as \<open>Board(final, None)\<close> makes it.\<close>

definition root_final :: board where
  "root_final = Board final [] 3 None (- 1) (- 1) 0 0 2 2 []"

text \<open>
  The contribution of one cell to the two heuristics of a 3 by 3 board: of the value
  \<open>k\<close> at \<open>(row, col)\<close> to the Manhattan distance, and to the misplaced-tile count.
\<close>

definition mterm :: "int \<Rightarrow> nat \<Rightarrow> nat \<Rightarrow> int" where
  "mterm k row col =
     (if k \<noteq> 0 then \<bar>int row - (k - 1) div 3\<bar> + \<bar>int col - (k - 1) mod 3\<bar> else 0)"

definition cterm :: "int \<Rightarrow> nat \<Rightarrow> nat \<Rightarrow> int" where
  "cterm k row col = (if k \<noteq> 0 \<and> k \<noteq> final ! row ! col then 1 else 0)"


text \<open>
  The grid after the tile at \<open>pos\<close> slides into the blank at \<open>e\<close>: the blank's cell takes
  the tile, the tile's cell becomes 0.
\<close>

definition slide :: "grid \<Rightarrow> int \<times> int \<Rightarrow> int \<times> int \<Rightarrow> grid" where
  "slide st e pos =
     (let g = st[nat (fst e) := (st ! nat (fst e))[nat (snd e) := st ! nat (fst pos) ! nat (snd pos)]]
      in g[nat (fst pos) := (g ! nat (fst pos))[nat (snd pos) := 0]])"



text \<open>
  A board as the constructor leaves it, but for \<open>depth\<close>, \<open>parent\<close> and the two cached
  heuristics: nothing generated yet, and the blank where the scan found it.
\<close>

definition fresh :: "board \<Rightarrow> bool" where
  "fresh b = (children b = [] \<and> valid_positions b = [] \<and> board_size b = length (state b)
              \<and> (empty_row b, empty_col b) = blank_of (state b))"

text \<open>
  What \<open>generate_children\<close> computes on such a board, as a list: the child made from a
  grid, the test that keeps a grid, and the children in the order of the positions.
\<close>

definition child_of :: "board \<Rightarrow> grid \<Rightarrow> board" where
  "child_of b1 g =
     Board g [] (length g) (Some b1) (- 1) (- 1) 0 (1 + depth b1) (fst (blank_of g)) (snd (blank_of g)) []"

definition keep :: "board option \<Rightarrow> grid list option \<Rightarrow> grid \<Rightarrow> bool" where
  "keep par visited g =
     (\<not> (case par of None \<Rightarrow> False | Some p \<Rightarrow> state p = g)
      \<and> \<not> (case visited of None \<Rightarrow> False | Some vs \<Rightarrow> g \<in> set vs))"

definition successors :: "board \<Rightarrow> grid list option \<Rightarrow> board list" where
  "successors b visited =
     (let b1 = get_surrounding_valid_positions b
      in map (child_of b1)
           (filter (keep (parent b) visited)
              (map (slide (state b) (blank_of (state b)))
                 (surrounding (length (state b)) (fst (blank_of (state b))) (snd (blank_of (state b)))))))"

text \<open>
  The loops, pass by pass: the loop variables after \<open>n\<close> further passes, \<open>None\<close> when the
  loop has left before; and the frontier of a run at the start of its pass \<open>n\<close>
  (empty when the run is over by then).
\<close>

fun uc_iter :: "nat \<Rightarrow> uc_vars \<Rightarrow> uc_vars option" where
  "uc_iter 0 v = Some v"
| "uc_iter (Suc n) v = (case uc_pass v of Again v' \<Rightarrow> uc_iter n v' | Raise e \<Rightarrow> None | Return r \<Rightarrow> None)"

fun astar_iter :: "nat \<Rightarrow> astar_vars \<Rightarrow> astar_vars option" where
  "astar_iter 0 v = Some v"
| "astar_iter (Suc n) v = (case astar_pass v of Again v' \<Rightarrow> astar_iter n v' | Raise e \<Rightarrow> None | Return r \<Rightarrow> None)"

definition uc_frontier :: "search \<Rightarrow> nat \<Rightarrow> (int \<times> board) list" where
  "uc_frontier self n =
     (case uc_start self of
        Inl e \<Rightarrow> []
      | Inr v0 \<Rightarrow> (case uc_iter n v0 of None \<Rightarrow> [] | Some v \<Rightarrow> uc_nodes v))"

definition astar_frontier :: "search \<Rightarrow> nat \<Rightarrow> (int \<times> board) list" where
  "astar_frontier self n =
     (case astar_start self of
        Inl e \<Rightarrow> []
      | Inr v0 \<Rightarrow> (case astar_iter n v0 of None \<Rightarrow> [] | Some v \<Rightarrow> as_nodes v))"

text \<open>
  The \<open>cost\<close> attribute is 0 on a board, on the boards of its \<open>children\<close> list and on
  every board up its parent chain; and on every board of a frontier.
\<close>

fun zero_costs :: "board \<Rightarrow> bool" where
  "zero_costs (Board s ch n p md mt c d er ec vp) =
     (c = 0 \<and> list_all zero_costs ch \<and> (case p of None \<Rightarrow> True | Some q \<Rightarrow> zero_costs q))"

definition nodes_zero :: "(int \<times> board) list \<Rightarrow> bool" where
  "nodes_zero nodes = (\<forall>e\<in>set nodes. zero_costs (snd e))"

section \<open>The path cost\<close>

lemma get_cost_Some: "get_cost (Some b) = 1 + get_cost (parent b)"
  by (cases b) simp

lemma get_cost_edges: "get_cost (Some b) = 1 + int (edges_to_root b)"
proof (induction b rule: edges_to_root.induct)
  case (1 s ch n p md mt c d er ec vp)
  then show ?case by (cases p) auto
qed

text \<open>
  C4, as the code has it: \<open>get_cost\<close> returns 0 for a null state, and for every
  non-null state one more than the number of parent links from it to the root of its
  chain, which is the number of states on the chain.
\<close>

theorem get_cost_counts_nodes:
  "get_cost None = 0 \<and> get_cost (Some b) = 1 + int (edges_to_root b)"
  using get_cost_edges by simp

text \<open>
  C4, as the specification states it, fails at a root: zero links lead from it to
  the root, and \<open>get_cost\<close> returns 1.
\<close>

theorem get_cost_root_counterexample:
  "get_cost (Some (Board final [] 3 None (- 1) (- 1) 0 0 2 2 [])) = 1 \<and>
   edges_to_root (Board final [] 3 None (- 1) (- 1) 0 0 2 2 []) = 0"
  by simp

section \<open>The goal grid\<close>

text \<open>
  Whenever \<open>get_board_size\<close> returns, the goal grid is what it was: \<open>Board.final\<close> is
  the 3 by 3 grid throughout, which is why the model has it as a constant.
\<close>

lemma get_board_size_unchanged: "get_board_size fin a = Inr f \<Longrightarrow> f = fin"
  by (cases a; simp add: get_board_size_def)
     (rename_tac xs, case_tac xs; simp split: sum.splits list.splits)

text \<open>
  C5: called with the dimension 4, the initialisation routine raises \<open>TypeError\<close>
  and the goal grid stays the 3 by 3 grid, which is not the grid with
  \<open>i * 4 + j + 1\<close> in cell \<open>(i, j)\<close>.
\<close>

theorem get_board_size_raises:
  "get_board_size final (PyInt 4) = Inl TypeError \<and> final \<noteq> spec_goal_cells 4"
proof -
  have "length final \<noteq> length (spec_goal_cells 4)"
    by (simp add: final_def spec_goal_cells_def)
  then have "final \<noteq> spec_goal_cells 4" by auto
  then show ?thesis by (simp add: get_board_size_def)
qed

section \<open>The Manhattan distance\<close>

lemma pred_div_mod:
  fixes k n :: int
  assumes "0 < n" "k mod n \<noteq> 0"
  shows "(k - 1) div n = k div n" "(k - 1) mod n = k mod n - 1"
proof -
  have "0 \<le> k mod n" using assms(1) by simp
  with assms(2) have r1: "0 < k mod n" by linarith
  have r2: "k mod n < n" using assms(1) by simp
  have e: "k - 1 = n * (k div n) + (k mod n - 1)"
    by (simp add: algebra_simps)
  show "(k - 1) div n = k div n"
    by (rule int_div_pos_eq [OF e]) (use r1 r2 in auto)
  show "(k - 1) mod n = k mod n - 1"
    by (rule int_mod_pos_eq [OF e]) (use r1 r2 in auto)
qed

lemma pred_div_mod0:
  fixes k n :: int
  assumes "0 < n" "k mod n = 0"
  shows "(k - 1) div n = k div n - 1" "(k - 1) mod n = n - 1"
proof -
  have e: "k - 1 = n * (k div n - 1) + (n - 1)"
    using assms(2) by (simp add: algebra_simps) (metis assms(2) mult_div_mod_eq add.right_neutral)
  show "(k - 1) div n = k div n - 1"
    by (rule int_div_pos_eq [OF e]) (use assms in auto)
  show "(k - 1) mod n = n - 1"
    by (rule int_mod_pos_eq [OF e]) (use assms in auto)
qed

lemma getitem_nat: "i < length xs \<Longrightarrow> getitem xs (int i) = Inr (xs ! i)"
  by (simp add: getitem_def py_index_def)

lemma getitem2_nat:
  "r < length g \<Longrightarrow> c < length (g ! r) \<Longrightarrow> getitem2 g (int r) (int c) = Inr (g ! r ! c)"
  by (simp add: getitem2_def getitem_nat)

lemma for_loop_sum:
  fixes s :: int
  assumes "\<And>x s. x \<in> set xs \<Longrightarrow> body x s = Inr (s + f x)"
  shows "for_loop xs body s = Inr (s + sum_list (map f xs))"
  using assms by (induction xs arbitrary: s) (auto simp: algebra_simps)

lemma goal_rc_spec:
  assumes "0 < k" "0 < n"
  shows "goal_rc k n = ((k - 1) div int n, (k - 1) mod int n)"
proof (cases "k mod int n = 0")
  case True
  then show ?thesis
    using assms pred_div_mod0 [of "int n" k] by (simp add: goal_rc_def)
next
  case False
  then show ?thesis
    using assms pred_div_mod [of "int n" k] by (simp add: goal_rc_def trunc_div_def)
qed

lemma square_row: "square st \<Longrightarrow> r < length st \<Longrightarrow> length (st ! r) = length st"
  by (simp add: square_def list_all_length)

lemma nonneg_cell:
  "square st \<Longrightarrow> nonneg_cells st \<Longrightarrow> r < length st \<Longrightarrow> c < length st \<Longrightarrow> 0 \<le> st ! r ! c"
  by (simp add: nonneg_cells_def square_def list_all_length)

lemma for_loop_update:
  assumes "\<And>x s. x \<in> set xs \<Longrightarrow> body x s = Inr (g x s)"
  shows "for_loop xs body s = Inr (foldl (\<lambda>s x. g x s) s xs)"
  using assms by (induction xs arbitrary: s) auto


lemma scan_blank_square:
  assumes "square st"
  shows "scan_blank st (length st) = Inr (blank_of st)"
  unfolding scan_blank_def blank_of_def
  apply (rule for_loop_update)
  apply (rule for_loop_update)
  apply (simp add: getitem2_nat square_row [OF assms])
  done

lemma Board_init_square:
  assumes "square st"
  shows "Board_init st par =
     Inr (Board st [] (length st) par (- 1) (- 1) 0 0 (fst (blank_of st)) (snd (blank_of st)) [])"
  by (simp add: Board_init_def scan_blank_square [OF assms] split: prod.splits)

lemma manhattan_sum_spec:
  assumes sq: "square (state b)" and nn: "nonneg_cells (state b)" and n: "board_size b = length (state b)"
  shows "manhattan_sum b = Inr (manhattan_spec (state b))"
proof -
  let ?n = "length (state b)"
  let ?t = "\<lambda>row col. (let k = state b ! row ! col
         in if k \<noteq> 0
            then \<bar>int row - (k - 1) div int ?n\<bar> + \<bar>int col - (k - 1) mod int ?n\<bar>
            else 0)"
  have inner: "for_loop [0..<?n] (\<lambda>col d.
         case getitem2 (state b) (int row) (int col) of
           Inl e \<Rightarrow> Inl e
         | Inr k \<Rightarrow>
             if k = 0 then Inr d
             else (case goal_rc k ?n of
                     (r, c) \<Rightarrow> Inr (d + \<bar>r - int row\<bar> + \<bar>c - int col\<bar>))) s
       = Inr (s + (\<Sum>col\<leftarrow>[0..<?n]. ?t row col))" if row: "row \<in> set [0..<?n]" for row s
  proof (rule for_loop_sum)
    fix col d assume col: "col \<in> set [0..<?n]"
    have r: "row < ?n" and c: "col < ?n" using row col by auto
    have g: "getitem2 (state b) (int row) (int col) = Inr (state b ! row ! col)"
      using r c by (simp add: getitem2_nat square_row [OF sq])
    have k0: "0 \<le> state b ! row ! col" using nonneg_cell [OF sq nn r c] .
    show "(case getitem2 (state b) (int row) (int col) of
           Inl e \<Rightarrow> Inl e
         | Inr k \<Rightarrow>
             if k = 0 then Inr d
             else (case goal_rc k ?n of
                     (r, c) \<Rightarrow> Inr (d + \<bar>r - int row\<bar> + \<bar>c - int col\<bar>))) = Inr (d + ?t row col)"
    proof (cases "state b ! row ! col = 0")
      case True
      then show ?thesis by (simp add: g)
    next
      case False
      with k0 have "0 < state b ! row ! col" by simp
      moreover have "0 < ?n" using r by auto
      ultimately have "goal_rc (state b ! row ! col) ?n =
         ((state b ! row ! col - 1) div int ?n, (state b ! row ! col - 1) mod int ?n)"
        by (rule goal_rc_spec)
      then show ?thesis using False by (simp add: g Let_def abs_minus_commute)
    qed
  qed
  show ?thesis
    unfolding manhattan_sum_def manhattan_spec_def n
    using for_loop_sum [of "[0..<?n]" _ "\<lambda>row. (\<Sum>col\<leftarrow>[0..<?n]. ?t row col)" 0, OF inner]
    by simp
qed



section \<open>Searching from the goal\<close>

lemma Board_init_final: "Board_init final None = Inr root_final"
  by (simp add: root_final_def) code_simp

lemma heappush_empty: "heappush lt [] x = [x]"
  by (simp add: heappush_def siftdown_def siftdown_loop.simps)

lemma heappop_single: "heappop lt [x] = Inr (x, [])"
  by (simp add: heappop_def)

lemma uc_search_final:
  "initial_state self = final \<Longrightarrow> uc_search self = Some (Inr (Some root_final, self))"
  by (simp add: uc_search_def uc_start_def Board_init_final heappush_empty uc_loop.simps
      uc_pass_def heappop_single is_final_state_def root_final_def)

lemma astar_search_final:
  "initial_state self = final \<Longrightarrow> astar_search self = Some (Inr (Some root_final, self))"
  by (simp add: astar_search_def astar_start_def Board_init_final heappush_empty astar_loop.simps
      astar_pass_def heappop_single is_final_state_def root_final_def)

text \<open>
  C9: when the initial board is the goal board, the search (with either algorithm
  and any heuristic the constructor accepts) returns the root, and reports the
  solution depth 0 and 0 nodes expanded (the maximal queue size it reports is 0 as
  well); each loop returns at its first pass, leaving the counters as they were.
\<close>

theorem search_at_goal:
  assumes "Search_init alg heur final = Inr self"
  shows "search_run self = Some (Inr (Some root_final, Solution 0 0 0, self)) \<and>
     (algorithm self = UNIFORM_COST \<longrightarrow> uc_search self = Some (Inr (Some root_final, self))) \<and>
     (algorithm self = A_STAR \<longrightarrow> astar_search self = Some (Inr (Some root_final, self)))"
proof -
  from assms have init: "initial_state self = final"
    and alg: "algorithm self = UNIFORM_COST \<or> algorithm self = A_STAR"
    and z: "max_queue_size self = 0" "depth_reported self = 0" "count_nodes_expanded self = 0"
    by (auto simp: Search_init_def split: if_splits)
  have self0: "self\<lparr>max_queue_size := 0, depth_reported := 0, count_nodes_expanded := 0\<rparr> = self"
    using z by simp
  have par: "parent root_final = None" by (simp add: root_final_def)
  show ?thesis
    using alg init z
    by (auto simp: search_run_def self0 uc_search_final astar_search_final
        print_search_stats_def par Let_def UNIFORM_COST_def A_STAR_def)
qed

text \<open>Witness of C9: Uniform Cost Search from the goal board.\<close>

theorem search_at_goal_witness:
  "search_run \<lparr>algorithm = UNIFORM_COST, heuristic = 0, initial_state = final,
                max_queue_size = 0, depth_reported = 0, count_nodes_expanded = 0\<rparr>
   = Some (Inr (Some root_final, Solution 0 0 0,
        \<lparr>algorithm = UNIFORM_COST, heuristic = 0, initial_state = final,
                max_queue_size = 0, depth_reported = 0, count_nodes_expanded = 0\<rparr>))"
  using search_at_goal [of UNIFORM_COST 0]
  by (simp add: Search_init_def UNIFORM_COST_def A_STAR_def)

section \<open>The two heuristics on 3 by 3 boards\<close>

lemma final_shape: "length final = 3" "r < 3 \<Longrightarrow> length (final ! r) = 3"
  by (auto simp: final_def nth_Cons' )

lemma misplaced_count_spec:
  assumes sq: "square (state b)" and n: "board_size b = length (state b)" and three: "length (state b) = 3"
  shows "misplaced_count b = Inr (misplaced_spec (state b))"
proof -
  let ?n = "length (state b)"
  let ?t = "\<lambda>row col. (if state b ! row ! col \<noteq> 0 \<and> state b ! row ! col \<noteq> final ! row ! col
                         then 1 else 0 :: int)"
  have inner: "for_loop [0..<?n] (\<lambda>col cnt.
         case getitem2 (state b) (int row) (int col) of
           Inl e \<Rightarrow> Inl e
         | Inr v \<Rightarrow>
             if v \<noteq> 0 then
               (case getitem2 final (int row) (int col) of
                  Inl e \<Rightarrow> Inl e
                | Inr w \<Rightarrow> Inr (if v \<noteq> w then cnt + 1 else cnt))
             else Inr cnt) s
       = Inr (s + (\<Sum>col\<leftarrow>[0..<?n]. ?t row col))" if row: "row \<in> set [0..<?n]" for row s
  proof (rule for_loop_sum)
    fix col d assume col: "col \<in> set [0..<?n]"
    have r: "row < ?n" and c: "col < ?n" using row col by auto
    have g: "getitem2 (state b) (int row) (int col) = Inr (state b ! row ! col)"
      using r c by (simp add: getitem2_nat square_row [OF sq])
    have f: "getitem2 final (int row) (int col) = Inr (final ! row ! col)"
      using r c three by (simp add: getitem2_nat final_shape)
    show "(case getitem2 (state b) (int row) (int col) of
           Inl e \<Rightarrow> Inl e
         | Inr v \<Rightarrow>
             if v \<noteq> 0 then
               (case getitem2 final (int row) (int col) of
                  Inl e \<Rightarrow> Inl e
                | Inr w \<Rightarrow> Inr (if v \<noteq> w then d + 1 else d))
             else Inr d) = Inr (d + ?t row col)"
      by (simp add: g f)
  qed
  show ?thesis
    unfolding misplaced_count_def misplaced_spec_def n
    using for_loop_sum [of "[0..<?n]" _ "\<lambda>row. (\<Sum>col\<leftarrow>[0..<?n]. ?t row col)" 0, OF inner]
    by simp
qed

lemma mterm_nonneg: "0 \<le> mterm k r c"
  by (simp add: mterm_def)


lemma divmod3_iff:
  fixes m :: int and r c :: nat
  assumes "c < 3"
  shows "m div 3 = int r \<and> m mod 3 = int c \<longleftrightarrow> m = 3 * int r + int c"
proof
  assume "m div 3 = int r \<and> m mod 3 = int c"
  then show "m = 3 * int r + int c"
    using mult_div_mod_eq [of 3 m] by simp
next
  assume e: "m = 3 * int r + int c"
  have "m div 3 = int r" by (rule int_div_pos_eq [OF e]) (use assms in auto)
  moreover have "m mod 3 = int c" by (rule int_mod_pos_eq [OF e]) (use assms in auto)
  ultimately show "m div 3 = int r \<and> m mod 3 = int c" ..
qed

lemma mterm_zero:
  assumes "c < 3"
  shows "mterm k r c = 0 \<longleftrightarrow> k = 0 \<or> k = 3 * int r + int c + 1"
  using divmod3_iff [OF assms, of "k - 1" r] by (auto simp: mterm_def)

lemma final_cell:
  "r < 3 \<Longrightarrow> c < 3 \<Longrightarrow> final ! r ! c = (if r = 2 \<and> c = 2 then 0 else 3 * int r + int c + 1)"
  by (auto simp: final_def nth_Cons' less_Suc_eq numeral_3_eq_3)

lemma cterm_le_mterm:
  assumes "r < 3" "c < 3" "k \<le> 8"
  shows "cterm k r c \<le> mterm k r c"
proof (cases "cterm k r c = 0")
  case True
  then show ?thesis using mterm_nonneg [of k r c] by simp
next
  case False
  then have k: "k \<noteq> 0" "k \<noteq> final ! r ! c" and one: "cterm k r c = 1"
    by (auto simp: cterm_def split: if_splits)
  have "k \<noteq> 3 * int r + int c + 1"
    using k assms final_cell [OF assms(1,2)] by (auto split: if_splits)
  then have "mterm k r c \<noteq> 0" using mterm_zero [OF assms(2)] k by simp
  then show ?thesis using mterm_nonneg [of k r c] one by linarith
qed

lemma upt3: "[0..<3] = [0, 1, 2]"
  by (simp add: upt_rec)

lemma list3: "length xs = 3 \<Longrightarrow> \<exists>a b c. xs = [a, b, c]"
  by (auto simp: length_Suc_conv numeral_3_eq_3)

lemma sum3: "(\<Sum>x\<leftarrow>[0..<3]. f x) = f 0 + f 1 + f 2" for f :: "nat \<Rightarrow> int"
  by (simp add: upt3)

lemma manhattan_spec_terms:
  assumes "length st = 3"
  shows "manhattan_spec st = (\<Sum>row\<leftarrow>[0..<3]. \<Sum>col\<leftarrow>[0..<3]. mterm (st ! row ! col) row col)"
  unfolding manhattan_spec_def mterm_def assms Let_def by (simp only: of_nat_numeral)

lemma misplaced_spec_terms:
  assumes "length st = 3"
  shows "misplaced_spec st = (\<Sum>row\<leftarrow>[0..<3]. \<Sum>col\<leftarrow>[0..<3]. cterm (st ! row ! col) row col)"
  unfolding misplaced_spec_def cterm_def assms by (rule refl)

lemma manhattan_spec3:
  assumes "length st = 3"
  shows "manhattan_spec st =
     mterm (st ! 0 ! 0) 0 0 + mterm (st ! 0 ! 1) 0 1 + mterm (st ! 0 ! 2) 0 2
   + mterm (st ! 1 ! 0) 1 0 + mterm (st ! 1 ! 1) 1 1 + mterm (st ! 1 ! 2) 1 2
   + mterm (st ! 2 ! 0) 2 0 + mterm (st ! 2 ! 1) 2 1 + mterm (st ! 2 ! 2) 2 2"
  unfolding manhattan_spec_terms [OF assms] sum3 by (simp only: add.assoc)

lemma misplaced_spec3:
  assumes "length st = 3"
  shows "misplaced_spec st =
     cterm (st ! 0 ! 0) 0 0 + cterm (st ! 0 ! 1) 0 1 + cterm (st ! 0 ! 2) 0 2
   + cterm (st ! 1 ! 0) 1 0 + cterm (st ! 1 ! 1) 1 1 + cterm (st ! 1 ! 2) 1 2
   + cterm (st ! 2 ! 0) 2 0 + cterm (st ! 2 ! 1) 2 1 + cterm (st ! 2 ! 2) 2 2"
  unfolding misplaced_spec_terms [OF assms] sum3 by (simp only: add.assoc)

lemma perm_board3:
  assumes "perm_board 3 st"
  shows "length st = 3" "square st"
    "\<And>r c. r < 3 \<Longrightarrow> c < 3 \<Longrightarrow> 0 \<le> st ! r ! c \<and> st ! r ! c \<le> 8"
    "\<And>r c r' c'. r < 3 \<Longrightarrow> c < 3 \<Longrightarrow> r' < 3 \<Longrightarrow> c' < 3 \<Longrightarrow> st ! r ! c = st ! r' ! c' \<Longrightarrow> r = r' \<and> c = c'"
proof -
  from assms show l: "length st = 3" and sq: "square st"
    by (simp_all add: perm_board_def)
  from assms have m: "mset (concat st) = mset (map int [0..<9])"
    by (simp add: perm_board_def)
  from l obtain r0 r1 r2 where st: "st = [r0, r1, r2]" using list3 by blast
  from sq st have "length r0 = 3" "length r1 = 3" "length r2 = 3"
    by (simp_all add: square_def)
  then obtain a b c d e f g h i where r: "r0 = [a, b, c]" "r1 = [d, e, f]" "r2 = [g, h, i]"
    using list3 by metis
  have d9: "distinct (map int [0..<9])" by (simp add: distinct_map)
  have dc: "distinct (concat st)" using m d9 by (metis mset_eq_imp_distinct_iff)
  have sc: "set (concat st) = set (map int [0..<9])" using m by (metis mset_eq_setD)
  have bound: "0 \<le> x \<and> x \<le> 8" if "x \<in> set (concat st)" for x
    using that unfolding sc by (auto simp del: upt_Suc)
  have flat: "concat st ! (3 * r + c) = st ! r ! c" if "r < 3" "c < 3" for r c
    using that unfolding st r by (auto simp: less_Suc_eq numeral_3_eq_3)
  have len: "length (concat st) = 9" unfolding st r by simp
  show "0 \<le> st ! r ! c \<and> st ! r ! c \<le> 8" if "r < 3" "c < 3" for r c
  proof -
    have "3 * r + c < length (concat st)" using that len by simp
    then have "concat st ! (3 * r + c) \<in> set (concat st)" by (rule nth_mem)
    then show ?thesis using bound flat [OF that] by simp
  qed
  show "r = r' \<and> c = c'" if "r < 3" "c < 3" "r' < 3" "c' < 3" "st ! r ! c = st ! r' ! c'" for r c r' c'
  proof -
    have "concat st ! (3 * r + c) = concat st ! (3 * r' + c')"
      using that flat by simp
    moreover have "3 * r + c < length (concat st)" "3 * r' + c' < length (concat st)"
      using that len by simp_all
    ultimately have e: "3 * r + c = 3 * r' + c'"
      using dc by (simp add: nth_eq_iff_index_eq)
    have "(3 * r + c) div 3 = r" "(3 * r' + c') div 3 = r'"
      using that(2,4) by simp_all
    with e have "r = r'" by simp
    with e show ?thesis by simp
  qed
qed


lemma sum2_mono:
  fixes s t :: "nat \<Rightarrow> nat \<Rightarrow> int"
  assumes "\<And>r c. r < 3 \<Longrightarrow> c < 3 \<Longrightarrow> s r c \<le> t r c"
  shows "(\<Sum>row\<leftarrow>[0..<3]. \<Sum>col\<leftarrow>[0..<3]. s row col) \<le> (\<Sum>row\<leftarrow>[0..<3]. \<Sum>col\<leftarrow>[0..<3]. t row col)"
  using assms by (intro sum_list_mono) auto






lemma manhattan_ge_misplaced:
  assumes p: "perm_board 3 st"
  shows "misplaced_spec st \<le> manhattan_spec st"
  unfolding misplaced_spec_terms [OF perm_board3(1) [OF p]]
            manhattan_spec_terms [OF perm_board3(1) [OF p]]
  by (rule sum2_mono) (use perm_board3(3) [OF p] cterm_le_mterm in auto)

lemma perm_board_nonneg:
  assumes "perm_board n st"
  shows "nonneg_cells st"
proof -
  from assms have "set (concat st) = set (map int [0..<n * n])"
    unfolding perm_board_def by (metis mset_eq_setD)
  then have "\<forall>x\<in>set (concat st). 0 \<le> x" by auto
  then show ?thesis by (auto simp: nonneg_cells_def list_all_iff)
qed

lemma heuristics_on_perm3:
  assumes p: "perm_board 3 st"
  shows "\<exists>b b1 b2. Board_init st par = Inr b \<and> state b = st \<and>
           misplaced_tile b = Inr (misplaced_spec st, b1) \<and>
           manhattan_distance b = Inr (manhattan_spec st, b2)"
proof -
  let ?b = "Board st [] (length st) par (- 1) (- 1) 0 0 (fst (blank_of st)) (snd (blank_of st)) []"
  note l = perm_board3(1) [OF p] and sq = perm_board3(2) [OF p]
  have "manhattan_sum ?b = Inr (manhattan_spec st)"
    using manhattan_sum_spec [of ?b] sq perm_board_nonneg [OF p] by simp
  then have 1: "manhattan_distance ?b = Inr (manhattan_spec st, set_m_dist (manhattan_spec st) ?b)"
    by (simp add: manhattan_distance_def)
  have "misplaced_count ?b = Inr (misplaced_spec st)"
    using misplaced_count_spec [of ?b] sq l by simp
  then have 2: "misplaced_tile ?b = Inr (misplaced_spec st, set_m_tile_count (misplaced_spec st) ?b)"
    by (simp add: misplaced_tile_def)
  show ?thesis
    using Board_init_square [OF sq, of par] 1 2 by auto
qed




text \<open>
  Where the goal grid has the dimension of the board the two heuristics are ordered:
  on the board the constructor makes from a 3 by 3 grid holding each of \<open>0 .. 8\<close>
  once, \<open>manhattan_distance\<close> is at least \<open>misplaced_tile\<close>.
\<close>

lemma manhattan_ge_misplaced_3x3:
  assumes "perm_board 3 st"
  shows "\<exists>b v w b1 b2. Board_init st par = Inr b \<and>
           misplaced_tile b = Inr (v, b1) \<and> manhattan_distance b = Inr (w, b2) \<and> v \<le> w"
  using heuristics_on_perm3 [OF assms, of par] manhattan_ge_misplaced [OF assms] by blast

text \<open>
  C8 fails in the code on the 2 by 2 board \<open>[[1, 2], [3, 0]]\<close>, a permutation of
  \<open>0 .. 3\<close> with every tile at its place: \<open>manhattan_distance\<close>, which takes the goal
  positions from \<open>board_size\<close>, returns 0, while \<open>misplaced_tile\<close> compares the cells
  with \<open>Board.final\<close>, finds \<open>3\<close> where that grid has \<open>4\<close>, and returns 1.
  \<open>Board.final\<close> is the 3 by 3 grid here because \<open>get_board_size\<close>, the routine meant
  to set it for another dimension, raises before it writes a cell.
\<close>

theorem heuristics_order_2x2:
  "perm_board 2 [[1, 2], [3, 0]] \<and>
   Board_init [[1, 2], [3, 0]] None = Inr (Board [[1, 2], [3, 0]] [] 2 None (- 1) (- 1) 0 0 1 1 []) \<and>
   manhattan_distance (Board [[1, 2], [3, 0]] [] 2 None (- 1) (- 1) 0 0 1 1 [])
     = Inr (0, Board [[1, 2], [3, 0]] [] 2 None 0 (- 1) 0 0 1 1 []) \<and>
   misplaced_tile (Board [[1, 2], [3, 0]] [] 2 None (- 1) (- 1) 0 0 1 1 [])
     = Inr (1, Board [[1, 2], [3, 0]] [] 2 None (- 1) 1 0 0 1 1 [])"
proof -
  have "perm_board 2 [[1, 2], [3, 0]]"
    by (simp add: perm_board_def square_def upt_rec)
  moreover have "Board_init [[1, 2], [3, 0]] None = Inr (Board [[1, 2], [3, 0]] [] 2 None (- 1) (- 1) 0 0 1 1 []) \<and>
   manhattan_distance (Board [[1, 2], [3, 0]] [] 2 None (- 1) (- 1) 0 0 1 1 [])
     = Inr (0, Board [[1, 2], [3, 0]] [] 2 None 0 (- 1) 0 0 1 1 []) \<and>
   misplaced_tile (Board [[1, 2], [3, 0]] [] 2 None (- 1) (- 1) 0 0 1 1 [])
     = Inr (1, Board [[1, 2], [3, 0]] [] 2 None (- 1) 1 0 0 1 1 [])"
    by code_simp
  ultimately show ?thesis by blast
qed

section \<open>Successor generation\<close>










lemma length_slide: "length (slide st e pos) = length st"
  by (simp add: slide_def Let_def)












lemma sel_set_valid_positions [simp]:
  "state (set_valid_positions v b) = state b"
  "parent (set_valid_positions v b) = parent b"
  "depth (set_valid_positions v b) = depth b"
  "cost (set_valid_positions v b) = cost b"
  "children (set_valid_positions v b) = children b"
  "board_size (set_valid_positions v b) = board_size b"
  "empty_row (set_valid_positions v b) = empty_row b"
  "empty_col (set_valid_positions v b) = empty_col b"
  "valid_positions (set_valid_positions v b) = v"
  by (cases b; simp add: set_valid_positions_def)+






lemma state_child_of [simp]: "state (child_of b1 g) = g"
  "depth (child_of b1 g) = 1 + depth b1" "parent (child_of b1 g) = Some b1"
  "cost (child_of b1 g) = 0"
  by (simp_all add: child_of_def)


lemma Board_init_fresh:
  assumes "square st"
  shows "\<exists>b. Board_init st par = Inr b \<and> fresh b \<and> state b = st \<and> parent b = par"
  using Board_init_square [OF assms, of par] by (simp add: fresh_def)

lemma successors_fresh: "ch \<in> set (successors b visited) \<Longrightarrow> fresh ch"
  by (auto simp: successors_def Let_def child_of_def fresh_def)



lemma case_Inr_ex: "(case x of Inl e \<Rightarrow> False | Inr y \<Rightarrow> P y) \<Longrightarrow> \<exists>y. x = Inr y \<and> P y"
  by (cases x) auto




section \<open>The heap keeps its items\<close>

lemma mset_move:
  assumes "pp < length heap" "pos < length heap"
  shows "mset (heap[pos := heap ! pp, pp := x]) = mset (heap[pos := x])"
proof (cases "pp = pos")
  case True
  then show ?thesis by simp
next
  case False
  let ?ls = "heap[pos := x]"
  have "mset (?ls[pos := ?ls ! pp, pp := ?ls ! pos]) = mset ?ls"
    using assms by (intro mset_swap) simp_all
  then show ?thesis using False assms by simp
qed

lemma siftdown_loop_mset:
  assumes "pos < length heap"
  shows "case siftdown_loop lt x sp heap pos of (h, p) \<Rightarrow>
           p < length h \<and> length h = length heap \<and> mset (h[p := x]) = mset (heap[pos := x])"
  using assms
proof (induction lt x sp heap pos rule: siftdown_loop.induct)
  case (1 lt x sp heap pos)
  show ?case
  proof (cases "sp < pos \<and> lt x (heap ! ((pos - 1) div 2))")
    case True
    let ?pp = "(pos - 1) div 2"
    have pp: "?pp < length heap" using "1.prems" by simp
    have pp': "?pp < length (heap[pos := heap ! ?pp])" using pp by simp
    from "1.IH" [OF _ refl refl _ pp'] True
    have ih: "case siftdown_loop lt x sp (heap[pos := heap ! ?pp]) ?pp of (h, p) \<Rightarrow>
           p < length h \<and> length h = length heap
           \<and> mset (h[p := x]) = mset (heap[pos := heap ! ?pp, ?pp := x])"
      by simp
    have "siftdown_loop lt x sp heap pos = siftdown_loop lt x sp (heap[pos := heap ! ?pp]) ?pp"
      using True by (subst siftdown_loop.simps) (simp add: Let_def)
    moreover obtain h p where "siftdown_loop lt x sp (heap[pos := heap ! ?pp]) ?pp = (h, p)"
      by (cases "siftdown_loop lt x sp (heap[pos := heap ! ?pp]) ?pp")
    ultimately show ?thesis
      using ih mset_move [OF pp "1.prems"] by simp
  next
    case False
    then have "siftdown_loop lt x sp heap pos = (heap, pos)"
      by (subst siftdown_loop.simps) (auto simp: Let_def)
    then show ?thesis using "1.prems" by simp
  qed
qed

lemma siftdown_mset:
  assumes "pos < length heap"
  shows "mset (siftdown lt heap sp pos) = mset heap" "length (siftdown lt heap sp pos) = length heap"
proof -
  obtain h p where hp: "siftdown_loop lt (heap ! pos) sp heap pos = (h, p)"
    by (cases "siftdown_loop lt (heap ! pos) sp heap pos")
  have sd: "siftdown lt heap sp pos = h[p := heap ! pos]"
    unfolding siftdown_def Let_def hp by simp
  from siftdown_loop_mset [OF assms, where lt = lt and x = "heap ! pos" and sp = sp] hp
  show "mset (siftdown lt heap sp pos) = mset heap" "length (siftdown lt heap sp pos) = length heap"
    by (simp_all add: sd)
qed

lemma siftup_loop_mset:
  assumes "pos < length heap" "endpos = length heap"
  shows "case siftup_loop lt endpos heap pos childpos of (h, p) \<Rightarrow>
           p < length h \<and> length h = length heap \<and> mset (h[p := x]) = mset (heap[pos := x])"
  using assms
proof (induction lt endpos heap pos childpos rule: siftup_loop.induct)
  case (1 lt endpos heap pos childpos)
  show ?case
  proof (cases "childpos < endpos")
    case True
    let ?c = "if childpos + 1 < endpos \<and> \<not> lt (heap ! childpos) (heap ! (childpos + 1))
              then childpos + 1 else childpos"
    have c: "?c < length heap" using True "1.prems" by auto
    have c': "?c < length (heap[pos := heap ! ?c])" using c by simp
    have e': "endpos = length (heap[pos := heap ! ?c])" using "1.prems" by simp
    from "1.IH" [OF True refl refl c' e']
    have ih: "case siftup_loop lt endpos (heap[pos := heap ! ?c]) ?c (2 * ?c + 1) of (h, p) \<Rightarrow>
           p < length h \<and> length h = length heap
           \<and> mset (h[p := x]) = mset (heap[pos := heap ! ?c, ?c := x])"
      by simp
    have "siftup_loop lt endpos heap pos childpos
        = siftup_loop lt endpos (heap[pos := heap ! ?c]) ?c (2 * ?c + 1)"
      using True by (subst siftup_loop.simps) (simp add: Let_def)
    moreover obtain h p where
      "siftup_loop lt endpos (heap[pos := heap ! ?c]) ?c (2 * ?c + 1) = (h, p)"
      by (cases "siftup_loop lt endpos (heap[pos := heap ! ?c]) ?c (2 * ?c + 1)")
    ultimately show ?thesis
      using ih mset_move [OF c "1.prems"(1)] by simp
  next
    case False
    then have "siftup_loop lt endpos heap pos childpos = (heap, pos)"
      by (subst siftup_loop.simps) simp
    then show ?thesis using "1.prems" by simp
  qed
qed

lemma siftup_mset:
  assumes "pos < length heap"
  shows "mset (siftup lt heap pos) = mset heap" "length (siftup lt heap pos) = length heap"
proof -
  obtain h p where hp: "siftup_loop lt (length heap) heap pos (2 * pos + 1) = (h, p)"
    by (cases "siftup_loop lt (length heap) heap pos (2 * pos + 1)")
  from siftup_loop_mset [OF assms refl, where lt = lt and childpos = "2 * pos + 1" and x = "heap ! pos"] hp
  have p: "p < length h" and l: "length h = length heap"
    and m: "mset (h[p := heap ! pos]) = mset heap" by simp_all
  have p': "p < length (h[p := heap ! pos])" using p by simp
  have su: "siftup lt heap pos = siftdown lt (h[p := heap ! pos]) pos p"
    unfolding siftup_def Let_def hp by simp
  show "mset (siftup lt heap pos) = mset heap" "length (siftup lt heap pos) = length heap"
    using siftdown_mset [OF p', where lt = lt and sp = pos] m l by (simp_all add: su)
qed

lemma heappush_mset: "mset (heappush lt heap x) = add_mset x (mset heap)"
  and heappush_length: "length (heappush lt heap x) = Suc (length heap)"
  using siftdown_mset [where pos = "length heap" and heap = "heap @ [x]" and lt = lt and sp = 0]
  by (simp_all add: heappush_def)

lemma heappop_mset_length:
  assumes "heappop lt heap = Inr (x, h)"
  shows "mset heap = add_mset x (mset h) \<and> Suc (length h) = length heap"
proof -
  from assms have ne: "heap \<noteq> []" by (auto simp: heappop_def split: if_splits)
  then obtain rest l where heap: "heap = rest @ [l]" by (metis rev_exhaust)
  show ?thesis
  proof (cases "rest = []")
    case True
    then show ?thesis using assms heap by (auto simp: heappop_def)
  next
    case False
    then have 0: "0 < length (rest[0 := l])" by simp
    have x: "x = rest ! 0" and h: "h = siftup lt (rest[0 := l]) 0"
      using assms heap False by (auto simp: heappop_def Let_def)
    have "mset (rest[0 := l]) = add_mset l (mset rest - {#rest ! 0#})"
      using False by (simp add: mset_update)
    moreover have "rest ! 0 \<in># mset rest" using False by simp
    ultimately show ?thesis
      using siftup_mset [OF 0, where lt = lt] by (simp add: heap x h)
  qed
qed

lemma heappop_mset:
  assumes "heappop lt heap = Inr (x, h)"
  shows "mset heap = add_mset x (mset h)" "Suc (length h) = length heap"
  using heappop_mset_length [OF assms] by simp_all

lemma heappush_set: "set (heappush lt heap x) = insert x (set heap)"
  using heappush_mset [where lt = lt and heap = heap and x = x] by (metis set_mset_add_mset_insert set_mset_mset)

lemma heappop_set: "heappop lt heap = Inr (x, h) \<Longrightarrow> set heap = insert x (set h)"
  using heappop_mset(1) [where lt = lt and heap = heap and x = x and h = h] by (metis set_mset_add_mset_insert set_mset_mset)

lemma heappop_nonempty: "heap \<noteq> [] \<Longrightarrow> \<exists>x h. heappop lt heap = Inr (x, h)"
  by (simp add: heappop_def Let_def)

section \<open>The cost attribute\<close>

lemma zero_costs_iff:
  "zero_costs b \<longleftrightarrow> cost b = 0 \<and> list_all zero_costs (children b)
     \<and> (case parent b of None \<Rightarrow> True | Some q \<Rightarrow> zero_costs q)"
  by (cases b) simp

lemma zero_costs_setters [simp]:
  "zero_costs (set_valid_positions vp b) = zero_costs b"
  "zero_costs (set_depth d b) = zero_costs b"
  "zero_costs (set_m_dist m b) = zero_costs b"
  "zero_costs (set_m_tile_count m b) = zero_costs b"
  by (cases b; simp add: set_valid_positions_def set_depth_def set_m_dist_def set_m_tile_count_def)+

lemma zero_costs_set_children:
  "zero_costs (set_children chs b) \<longleftrightarrow> zero_costs (set_children [] b) \<and> list_all zero_costs chs"
  by (cases b) (auto simp: set_children_def)

lemma Board_init_zero:
  assumes "Board_init g par = Inr c" "case par of None \<Rightarrow> True | Some q \<Rightarrow> zero_costs q"
  shows "zero_costs c"
  using assms by (auto simp: Board_init_def split: sum.splits prod.splits)

lemma board_lt_zero:
  "cost a = 0 \<Longrightarrow> cost b = 0 \<Longrightarrow> board_lt a b = (state a = state b \<and> depth a < depth b)"
  by (simp add: board_lt_def)

lemma entry_lt_zero:
  "cost (snd x) = 0 \<Longrightarrow> cost (snd y) = 0 \<Longrightarrow> entry_lt x y = (fst x < fst y)"
  by (auto simp: entry_lt_def board_lt_def board_eq_def)

lemma for_loop_inv:
  assumes "for_loop xs body s = Inr s'" "P s"
    and "\<And>x s s'. x \<in> set xs \<Longrightarrow> P s \<Longrightarrow> body x s = Inr s' \<Longrightarrow> P s'"
  shows "P s'"
  using assms
proof (induction xs arbitrary: s)
  case Nil
  then show ?case by simp
next
  case (Cons x xs)
  from Cons.prems(1) obtain s1 where 1: "body x s = Inr s1" and 2: "for_loop xs body s1 = Inr s'"
    by (auto split: sum.splits)
  have "P s1" using Cons.prems(3) [of x s s1] Cons.prems(2) 1 by simp
  moreover have "\<And>y s s'. y \<in> set xs \<Longrightarrow> P s \<Longrightarrow> body y s = Inr s' \<Longrightarrow> P s'"
    using Cons.prems(3) by (meson list.set_intros(2))
  ultimately show ?case using Cons.IH [OF 2] by blast
qed

lemma child_step_zero:
  assumes "child_step b1 vis pos chs = Inr chs'" "zero_costs b1" "list_all zero_costs chs"
  shows "list_all zero_costs chs'"
proof -
  from assms(1) obtain g where g: "swap_blank b1 pos = Inr g"
    by (auto simp: child_step_def split: sum.splits)
  show ?thesis
  proof (cases "case parent b1 of None \<Rightarrow> False | Some p \<Rightarrow> state p = g")
    case True
    then show ?thesis using assms g by (simp add: child_step_def)
  next
    case False
    with assms(1) g obtain c0 where c0: "Board_init g (Some b1) = Inr c0"
      by (auto simp: child_step_def split: sum.splits)
    have "zero_costs c0" using Board_init_zero [OF c0] assms(2) by simp
    then show ?thesis
      using assms g False c0 by (auto simp: child_step_def Let_def split: if_splits)
  qed
qed

lemma generate_children_zero:
  assumes "generate_children b vis = Inr (chs, b')" "zero_costs b"
  shows "list_all zero_costs chs"
proof (cases "length (children b) \<noteq> 0")
  case True
  then show ?thesis using assms by (auto simp: generate_children_def zero_costs_iff)
next
  case False
  let ?b1 = "get_surrounding_valid_positions b"
  from False assms(1) have l: "for_loop (valid_positions ?b1) (child_step ?b1 vis) (children ?b1) = Inr chs"
    by (auto simp: generate_children_def Let_def split: sum.splits)
  have z1: "zero_costs ?b1" using assms(2) by (simp add: get_surrounding_valid_positions_def)
  have "list_all zero_costs (children ?b1)" using z1 by (simp add: zero_costs_iff)
  with l show ?thesis
  proof (rule for_loop_inv [where P = "list_all zero_costs"])
    fix pos acc acc'
    assume "list_all zero_costs acc" "child_step ?b1 vis pos acc = Inr acc'"
    then show "list_all zero_costs acc'" using child_step_zero [OF _ z1] by blast
  qed
qed

lemma push_children_set:
  "set (push_children c chs nodes) = set nodes \<union> (\<lambda>ch. (c, ch)) ` set chs"
  unfolding push_children_def
  by (induction chs arbitrary: nodes) (auto simp: heappush_set)

lemma push_children_mset:
  "mset (push_children c chs nodes) = mset nodes + mset (map (\<lambda>ch. (c, ch)) chs)"
  unfolding push_children_def
  by (induction chs arbitrary: nodes) (auto simp: heappush_mset)

lemma uc_pass_Again:
  assumes "uc_pass v = Again v'"
  obtains c b rest chs b' where
    "heappop entry_lt (uc_nodes v) = Inr ((c, b), rest)" "\<not> is_final_state b"
    "expand b (Some (List.insert (state b) (uc_visited v))) = Inr (chs, b')"
    "uc_nodes v' = push_children (1 + c) chs rest"
    "uc_visited v' = List.insert (state b) (uc_visited v)"
  using assms unfolding uc_pass_def
  by (auto simp: Let_def split: if_splits sum.splits prod.splits)

lemma uc_pass_Return:
  assumes "uc_pass v = Return (Some b, s)"
  obtains c rest where "heappop entry_lt (uc_nodes v) = Inr ((c, b), rest)" "is_final_state b"
    "s = uc_self v"
  using assms unfolding uc_pass_def
  by (auto simp: Let_def split: if_splits sum.splits prod.splits)

lemma uc_pass_zero:
  assumes "uc_pass v = Again v'" "nodes_zero (uc_nodes v)"
  shows "nodes_zero (uc_nodes v')"
proof -
  from assms(1) obtain c b rest chs b' where
    pop: "heappop entry_lt (uc_nodes v) = Inr ((c, b), rest)"
    and ex: "expand b (Some (List.insert (state b) (uc_visited v))) = Inr (chs, b')"
    and n': "uc_nodes v' = push_children (1 + c) chs rest"
    by (rule uc_pass_Again)
  from heappop_set [OF pop] assms(2) have b: "zero_costs b" and rest: "nodes_zero rest"
    by (auto simp: nodes_zero_def)
  from generate_children_zero [OF ex [unfolded expand_def] b]
  have "list_all zero_costs chs" .
  then show ?thesis
    using rest by (auto simp: n' push_children_set nodes_zero_def list_all_iff)
qed

lemma uc_start_zero:
  assumes "uc_start self = Inr v0"
  shows "nodes_zero (uc_nodes v0)"
proof -
  from assms obtain root where r: "Board_init (initial_state self) None = Inr root"
    and v0: "uc_nodes v0 = heappush entry_lt [] (0, root)"
    by (auto simp: uc_start_def split: sum.splits)
  from Board_init_zero [OF r] show ?thesis
    by (simp add: v0 heappush_set nodes_zero_def)
qed

lemma get_heuristic_cost_zero:
  assumes "get_heuristic_cost self (Some c) = Inr (h, node)" "zero_costs c"
  shows "\<exists>c'. node = Some c' \<and> zero_costs c' \<and> state c' = state c"
  using assms
  by (auto simp: get_heuristic_cost_def manhattan_distance_def misplaced_tile_def
      set_m_dist_def set_m_tile_count_def split: if_splits sum.splits board.splits)

lemma get_heuristic_cost_Some:
  assumes "get_heuristic_cost self (Some c) = Inr (h, node)"
  obtains c' where "node = Some c'" "state c' = state c" "zero_costs c \<Longrightarrow> zero_costs c'"
proof -
  from get_heuristic_cost_zero [OF assms] assms
  have "\<exists>c'. node = Some c' \<and> state c' = state c \<and> (zero_costs c \<longrightarrow> zero_costs c')"
    by (auto simp: get_heuristic_cost_def manhattan_distance_def misplaced_tile_def
        set_m_dist_def set_m_tile_count_def split: if_splits sum.splits board.splits)
  then show ?thesis using that by blast
qed

lemma astar_child_cases:
  assumes "astar_child b child v = Inr v'"
  obtains (skip) gb where "as_g_x v (state b) = Some gb"
      "\<not> 1 + gb < (case as_g_x v (state child) of None \<Rightarrow> 100000000 | Some g \<Rightarrow> g)"
      "v' = v\<lparr>as_g_x := (if state child \<notin> dom (as_g_x v)
                          then (as_g_x v)(state child \<mapsto> 100000000) else as_g_x v)\<rparr>"
  | (relax) gb h c' where "as_g_x v (state b) = Some gb"
      "1 + gb < (case as_g_x v (state child) of None \<Rightarrow> 100000000 | Some g \<Rightarrow> g)"
      "get_heuristic_cost (as_self v) (Some child) = Inr (h, Some c')"
      "(h + (1 + gb), state c') \<in> set (as_visited v)"
      "v' = v\<lparr>as_g_x := (as_g_x v)(state child \<mapsto> 1 + gb)\<rparr>"
  | (push) gb h c' where "as_g_x v (state b) = Some gb"
      "1 + gb < (case as_g_x v (state child) of None \<Rightarrow> 100000000 | Some g \<Rightarrow> g)"
      "get_heuristic_cost (as_self v) (Some child) = Inr (h, Some c')"
      "(h + (1 + gb), state c') \<notin> set (as_visited v)"
      "v' = v\<lparr>as_nodes := heappush entry_lt (as_nodes v) (h + (1 + gb), c'),
               as_g_x := (as_g_x v)(state child \<mapsto> 1 + gb),
               as_visited := List.insert (h + (1 + gb), state c') (as_visited v)\<rparr>"
proof -
  from assms obtain gb where gb: "as_g_x v (state b) = Some gb"
    by (auto simp: astar_child_def split: option.splits)
  let ?gc = "case as_g_x v (state child) of None \<Rightarrow> 100000000 | Some g \<Rightarrow> g"
  let ?g1 = "if state child \<notin> dom (as_g_x v) then (as_g_x v)(state child \<mapsto> 100000000) else as_g_x v"
  have g1: "?g1 (state child) = Some ?gc" by (auto split: option.splits)
  have g2: "?g1(state child \<mapsto> 1 + gb) = (as_g_x v)(state child \<mapsto> 1 + gb)" by auto
  show ?thesis
  proof (cases "1 + gb < ?gc")
    case False
    with assms have "v' = v\<lparr>as_g_x := ?g1\<rparr>"
      unfolding astar_child_def gb Let_def option.case g1 by simp
    then show ?thesis using skip gb False by blast
  next
    case True
    with assms obtain h node where
      h: "get_heuristic_cost (as_self v) (Some child) = Inr (h, node)"
      unfolding astar_child_def gb Let_def option.case g1 by (auto split: sum.splits)
    from get_heuristic_cost_Some [OF h] obtain c' where c': "node = Some c'" by blast
    show ?thesis
    proof (cases "(h + (1 + gb), state c') \<in> set (as_visited v)")
      case in_v: True
      with assms True have "v' = v\<lparr>as_g_x := (as_g_x v)(state child \<mapsto> 1 + gb)\<rparr>"
        unfolding astar_child_def gb Let_def option.case g1 g2 h c' by simp
      then show ?thesis using relax gb True h c' in_v by blast
    next
      case not_in: False
      with assms True have "v' = v\<lparr>as_nodes := heappush entry_lt (as_nodes v) (h + (1 + gb), c'),
               as_g_x := (as_g_x v)(state child \<mapsto> 1 + gb),
               as_visited := List.insert (h + (1 + gb), state c') (as_visited v)\<rparr>"
        unfolding astar_child_def gb Let_def option.case g1 g2 h c' by simp
      then show ?thesis using push gb True h c' not_in by blast
    qed
  qed
qed

lemma astar_child_nodes:
  assumes "astar_child b child v = Inr v'"
  shows "as_nodes v' = as_nodes v \<or>
         (\<exists>f c'. as_nodes v' = heappush entry_lt (as_nodes v) (f, c')
            \<and> (zero_costs child \<longrightarrow> zero_costs c') \<and> state c' = state child)"
  using assms
proof (cases rule: astar_child_cases)
  case (skip gb)
  then show ?thesis by simp
next
  case (relax gb h c')
  then show ?thesis by simp
next
  case (push gb h c')
  from get_heuristic_cost_Some [OF push(3)]
  have "state c' = state child" "zero_costs child \<longrightarrow> zero_costs c'" by auto
  then show ?thesis using push(5) by auto
qed

lemma astar_child_zero:
  assumes "astar_child b child v = Inr v'" "zero_costs child" "nodes_zero (as_nodes v)"
  shows "nodes_zero (as_nodes v')"
  using astar_child_nodes [OF assms(1)] assms(2,3)
  by (auto simp: nodes_zero_def heappush_set)

lemma astar_pass_Again:
  assumes "astar_pass v = Again v'"
  obtains c b rest chs b' v2 where
    "heappop entry_lt (as_nodes v) = Inr ((c, b), rest)" "\<not> is_final_state b"
    "expand b None = Inr (chs, b')"
    "for_loop chs (astar_child b')
       (v\<lparr>as_nodes := rest,
          as_self := (as_self v)\<lparr>count_nodes_expanded := count_nodes_expanded (as_self v) + 1\<rparr>\<rparr>) = Inr v2"
    "as_nodes v' = as_nodes v2" "as_g_x v' = as_g_x v2" "as_visited v' = as_visited v2"
  using assms unfolding astar_pass_def
  by (auto simp: Let_def split: if_splits sum.splits prod.splits)

lemma astar_pass_Return:
  assumes "astar_pass v = Return (Some b, s)"
  obtains c rest where "heappop entry_lt (as_nodes v) = Inr ((c, b), rest)" "is_final_state b"
    "s = as_self v"
  using assms unfolding astar_pass_def
  by (auto simp: Let_def split: if_splits sum.splits prod.splits)

lemma astar_pass_zero:
  assumes "astar_pass v = Again v'" "nodes_zero (as_nodes v)"
  shows "nodes_zero (as_nodes v')"
proof -
  from assms(1) obtain c b rest chs b' v2 where
    pop: "heappop entry_lt (as_nodes v) = Inr ((c, b), rest)"
    and ex: "expand b None = Inr (chs, b')"
    and loop: "for_loop chs (astar_child b')
       (v\<lparr>as_nodes := rest,
          as_self := (as_self v)\<lparr>count_nodes_expanded := count_nodes_expanded (as_self v) + 1\<rparr>\<rparr>) = Inr v2"
    and n': "as_nodes v' = as_nodes v2"
    by (rule astar_pass_Again)
  from heappop_set [OF pop] assms(2) have b: "zero_costs b" and rest: "nodes_zero rest"
    by (auto simp: nodes_zero_def)
  from generate_children_zero [OF ex [unfolded expand_def] b]
  have chs: "list_all zero_costs chs" .
  have "nodes_zero (as_nodes v2)"
  proof (rule for_loop_inv [OF loop, where P = "\<lambda>w. nodes_zero (as_nodes w)"])
    show "nodes_zero (as_nodes (v\<lparr>as_nodes := rest,
          as_self := (as_self v)\<lparr>count_nodes_expanded := count_nodes_expanded (as_self v) + 1\<rparr>\<rparr>))"
      using rest by simp
    fix child w w'
    assume "child \<in> set chs" "nodes_zero (as_nodes w)" "astar_child b' child w = Inr w'"
    then show "nodes_zero (as_nodes w')"
      using astar_child_zero chs by (auto simp: list_all_iff)
  qed
  then show ?thesis by (simp add: n')
qed

lemma astar_start_zero:
  assumes "astar_start self = Inr v0"
  shows "nodes_zero (as_nodes v0)"
proof -
  from assms obtain root where r: "Board_init (initial_state self) None = Inr root"
    and v0: "as_nodes v0 = heappush entry_lt [] (0, root)"
    by (auto simp: astar_start_def split: sum.splits)
  from Board_init_zero [OF r] show ?thesis
    by (simp add: v0 heappush_set nodes_zero_def)
qed

lemma uc_loop_iter: "uc_iter n v = Some v' \<Longrightarrow> uc_loop v = uc_loop v'"
proof (induction n arbitrary: v)
  case 0
  then show ?case by simp
next
  case (Suc n)
  then obtain v1 where 1: "uc_pass v = Again v1" and 2: "uc_iter n v1 = Some v'"
    by (auto split: pass.splits)
  have "uc_loop v = uc_loop v1" by (subst uc_loop.simps) (simp add: 1)
  then show ?case using Suc.IH [OF 2] by simp
qed

lemma astar_loop_iter: "astar_iter n v = Some v' \<Longrightarrow> astar_loop v = astar_loop v'"
proof (induction n arbitrary: v)
  case 0
  then show ?case by simp
next
  case (Suc n)
  then obtain v1 where 1: "astar_pass v = Again v1" and 2: "astar_iter n v1 = Some v'"
    by (auto split: pass.splits)
  have "astar_loop v = astar_loop v1" by (subst astar_loop.simps) (simp add: 1)
  then show ?case using Suc.IH [OF 2] by simp
qed

lemma uc_iter_zero:
  assumes "uc_iter n v0 = Some v" "nodes_zero (uc_nodes v0)"
  shows "nodes_zero (uc_nodes v)"
  using assms
  by (induction n arbitrary: v0) (auto simp: uc_pass_zero split: pass.splits)

lemma astar_iter_zero:
  assumes "astar_iter n v0 = Some v" "nodes_zero (as_nodes v0)"
  shows "nodes_zero (as_nodes v)"
  using assms
  by (induction n arbitrary: v0) (auto simp: astar_pass_zero split: pass.splits)

lemma generate_children_zero_board:
  assumes "generate_children b vis = Inr (chs, b')" "zero_costs b"
  shows "zero_costs b'"
proof (cases "length (children b) \<noteq> 0")
  case True
  then show ?thesis using assms by (auto simp: generate_children_def)
next
  case False
  let ?b1 = "get_surrounding_valid_positions b"
  from False assms(1) have b': "b' = set_children chs ?b1"
    by (auto simp: generate_children_def Let_def split: sum.splits)
  from False have "children ?b1 = []" by (cases b) (simp add: get_surrounding_valid_positions_def set_valid_positions_def)
  then have "set_children [] ?b1 = ?b1" by (cases ?b1) (simp add: set_children_def)
  moreover have "zero_costs ?b1" using assms(2) by (simp add: get_surrounding_valid_positions_def)
  ultimately show ?thesis
    using generate_children_zero [OF assms] by (simp add: b' zero_costs_set_children)
qed

lemma uc_frontier_zero: "nodes_zero (uc_frontier self n)"
proof (cases "uc_start self")
  case (Inl e)
  then show ?thesis by (simp add: uc_frontier_def nodes_zero_def)
next
  case (Inr v0)
  show ?thesis
  proof (cases "uc_iter n v0")
    case None
    then show ?thesis using Inr by (simp add: uc_frontier_def nodes_zero_def)
  next
    case (Some v)
    then show ?thesis
      using Inr uc_iter_zero [OF Some uc_start_zero [OF Inr]] by (simp add: uc_frontier_def)
  qed
qed

lemma astar_frontier_zero: "nodes_zero (astar_frontier self n)"
proof (cases "astar_start self")
  case (Inl e)
  then show ?thesis by (simp add: astar_frontier_def nodes_zero_def)
next
  case (Inr v0)
  show ?thesis
  proof (cases "astar_iter n v0")
    case None
    then show ?thesis using Inr by (simp add: astar_frontier_def nodes_zero_def)
  next
    case (Some v)
    then show ?thesis
      using Inr astar_iter_zero [OF Some astar_start_zero [OF Inr]] by (simp add: astar_frontier_def)
  qed
qed

lemma zero_costs_cost: "zero_costs b \<Longrightarrow> cost b = 0"
  by (cases b) simp

text \<open>
  C10: at the start of every pass of a run of \<open>uc_search\<close> or of \<open>astar_search\<close>, every
  board \<open>x\<close> of the frontier has the cost 0, and so have the boards up its parent chain
  and in their \<open>children\<close> lists; the children that \<open>generate_children\<close> makes from it,
  under any filter, have the cost 0 as well, and the board keeps it. So for two
  boards of the frontier \<open>__lt__\<close> compares 0 with 0: it is the depth tie-break when
  their states are equal, and false otherwise. In the comparison of two frontier
  entries the tie-break is never reached: an entry is less than another exactly when
  its priority is less.
\<close>

theorem cost_stays_zero:
  assumes "nodes = uc_frontier self n \<or> nodes = astar_frontier self n"
    and "x \<in> set nodes" and "y \<in> set nodes"
  shows "cost (snd x) = 0 \<and> zero_costs (snd x) \<and>
     (board_lt (snd x) (snd y) \<longleftrightarrow> state (snd x) = state (snd y) \<and> depth (snd x) < depth (snd y)) \<and>
     (entry_lt x y \<longleftrightarrow> fst x < fst y) \<and>
     (\<forall>visited chs b'. generate_children (snd x) visited = Inr (chs, b')
        \<longrightarrow> list_all zero_costs chs \<and> zero_costs b')"
proof -
  from assms(1) have "nodes_zero nodes"
    using uc_frontier_zero astar_frontier_zero by auto
  with assms(2,3) have zx: "zero_costs (snd x)" and zy: "zero_costs (snd y)"
    by (auto simp: nodes_zero_def)
  then have cx: "cost (snd x) = 0" and cy: "cost (snd y) = 0"
    by (simp_all add: zero_costs_cost)
  show ?thesis
    using zx cx board_lt_zero [OF cx cy] entry_lt_zero [OF cx cy]
      generate_children_zero [OF _ zx] generate_children_zero_board [OF _ zx]
    by blast
qed

text \<open>
  The frontiers after the first pass from the board \<open>[[1, 2, 3], [4, 5, 6], [7, 0, 8]]\<close>,
  for Uniform Cost Search and for A* with the Manhattan distance.
\<close>

lemma uc_frontier_example:
  "map (\<lambda>e. (fst e, state (snd e))) (uc_frontier \<lparr>algorithm = 0, heuristic = 0, initial_state = [[1, 2, 3], [4, 5, 6], [7, 0, 8]], max_queue_size = 0, depth_reported = 0, count_nodes_expanded = 0\<rparr> 1) = [(1, [[1, 2, 3], [4, 0, 6], [7, 5, 8]]), (1, [[1, 2, 3], [4, 5, 6], [0, 7, 8]]), (1, [[1, 2, 3], [4, 5, 6], [7, 8, 0]])]"
  by code_simp

lemma uc_frontier_example_children:
  "(case generate_children (snd (uc_frontier \<lparr>algorithm = 0, heuristic = 0, initial_state = [[1, 2, 3], [4, 5, 6], [7, 0, 8]], max_queue_size = 0, depth_reported = 0, count_nodes_expanded = 0\<rparr> 1 ! 0)) None of
      Inl e \<Rightarrow> False | Inr (chs, b') \<Rightarrow> chs \<noteq> [])"
  by code_simp

lemma astar_frontier_example:
  "map (\<lambda>e. (fst e, state (snd e))) (astar_frontier \<lparr>algorithm = 1, heuristic = 1, initial_state = [[1, 2, 3], [4, 5, 6], [7, 0, 8]], max_queue_size = 0, depth_reported = 0, count_nodes_expanded = 0\<rparr> 1) = [(1, [[1, 2, 3], [4, 5, 6], [7, 8, 0]]), (3, [[1, 2, 3], [4, 5, 6], [0, 7, 8]]), (3, [[1, 2, 3], [4, 0, 6], [7, 5, 8]])]"
  by code_simp

lemma astar_frontier_example_children:
  "(case generate_children (snd (astar_frontier \<lparr>algorithm = 1, heuristic = 1, initial_state = [[1, 2, 3], [4, 5, 6], [7, 0, 8]], max_queue_size = 0, depth_reported = 0, count_nodes_expanded = 0\<rparr> 1 ! 1)) None of
      Inl e \<Rightarrow> False | Inr (chs, b') \<Rightarrow> chs \<noteq> [])"
  by code_simp

text \<open>
  Witness of C10: two entries of equal priority and different states in each of the
  two frontiers; neither board is less than the other, neither entry is.
\<close>

theorem cost_stays_zero_witness:
  "(\<exists>x y chs b'. x \<in> set (uc_frontier \<lparr>algorithm = 0, heuristic = 0, initial_state = [[1, 2, 3], [4, 5, 6], [7, 0, 8]], max_queue_size = 0, depth_reported = 0, count_nodes_expanded = 0\<rparr> 1) \<and> y \<in> set (uc_frontier \<lparr>algorithm = 0, heuristic = 0, initial_state = [[1, 2, 3], [4, 5, 6], [7, 0, 8]], max_queue_size = 0, depth_reported = 0, count_nodes_expanded = 0\<rparr> 1) \<and>
      generate_children (snd x) None = Inr (chs, b') \<and> chs \<noteq> [] \<and>
      cost (snd x) = 0 \<and> fst x = fst y \<and> \<not> board_lt (snd x) (snd y) \<and> \<not> entry_lt x y \<and>
      list_all zero_costs chs) \<and>
   (\<exists>x y chs b'. x \<in> set (astar_frontier \<lparr>algorithm = 1, heuristic = 1, initial_state = [[1, 2, 3], [4, 5, 6], [7, 0, 8]], max_queue_size = 0, depth_reported = 0, count_nodes_expanded = 0\<rparr> 1) \<and> y \<in> set (astar_frontier \<lparr>algorithm = 1, heuristic = 1, initial_state = [[1, 2, 3], [4, 5, 6], [7, 0, 8]], max_queue_size = 0, depth_reported = 0, count_nodes_expanded = 0\<rparr> 1) \<and>
      generate_children (snd x) None = Inr (chs, b') \<and> chs \<noteq> [] \<and>
      cost (snd x) = 0 \<and> fst x = fst y \<and> \<not> board_lt (snd x) (snd y) \<and> \<not> entry_lt x y \<and>
      list_all zero_costs chs)"
proof -
  have u: "\<exists>x y chs b'. x \<in> set (uc_frontier \<lparr>algorithm = 0, heuristic = 0, initial_state = [[1, 2, 3], [4, 5, 6], [7, 0, 8]], max_queue_size = 0, depth_reported = 0, count_nodes_expanded = 0\<rparr> 1) \<and> y \<in> set (uc_frontier \<lparr>algorithm = 0, heuristic = 0, initial_state = [[1, 2, 3], [4, 5, 6], [7, 0, 8]], max_queue_size = 0, depth_reported = 0, count_nodes_expanded = 0\<rparr> 1) \<and>
      generate_children (snd x) None = Inr (chs, b') \<and> chs \<noteq> [] \<and>
      cost (snd x) = 0 \<and> fst x = fst y \<and> \<not> board_lt (snd x) (snd y) \<and> \<not> entry_lt x y \<and>
      list_all zero_costs chs"
  proof -
    let ?F = "uc_frontier \<lparr>algorithm = 0, heuristic = 0, initial_state = [[1, 2, 3], [4, 5, 6], [7, 0, 8]], max_queue_size = 0, depth_reported = 0, count_nodes_expanded = 0\<rparr> 1"
    have l: "length ?F = 3"
      using arg_cong [OF uc_frontier_example, of length] by simp
    have m: "map (\<lambda>e. (fst e, state (snd e))) ?F ! 0 = (fst (?F ! 0), state (snd (?F ! 0)))"
      "map (\<lambda>e. (fst e, state (snd e))) ?F ! 1 = (fst (?F ! 1), state (snd (?F ! 1)))"
      using l by simp_all
    have x: "?F ! 0 \<in> set ?F" and y: "?F ! 1 \<in> set ?F" using l by simp_all
    have f: "fst (?F ! 0) = fst (?F ! 1)" and s: "state (snd (?F ! 0)) \<noteq> state (snd (?F ! 1))"
      using m [symmetric] unfolding uc_frontier_example by simp_all
    from case_Inr_ex [OF uc_frontier_example_children] obtain chs b' where
      g: "generate_children (snd (?F ! 0)) None = Inr (chs, b')" and ne: "chs \<noteq> []"
      by auto
    from cost_stays_zero [OF disjI1 [OF refl] x y]
    have c: "cost (snd (?F ! 0)) = 0"
      and lt: "board_lt (snd (?F ! 0)) (snd (?F ! 1)) \<longleftrightarrow>
          state (snd (?F ! 0)) = state (snd (?F ! 1)) \<and> depth (snd (?F ! 0)) < depth (snd (?F ! 1))"
      and el: "entry_lt (?F ! 0) (?F ! 1) \<longleftrightarrow> fst (?F ! 0) < fst (?F ! 1)"
      and ch: "\<forall>visited chs b'. generate_children (snd (?F ! 0)) visited = Inr (chs, b')
          \<longrightarrow> list_all zero_costs chs \<and> zero_costs b'"
      by blast+
    have "list_all zero_costs chs" using ch g by blast
    moreover have "\<not> board_lt (snd (?F ! 0)) (snd (?F ! 1))" using lt s by simp
    moreover have "\<not> entry_lt (?F ! 0) (?F ! 1)" using el f by simp
    ultimately show ?thesis using x y g ne c f by blast
  qed
  have a: "\<exists>x y chs b'. x \<in> set (astar_frontier \<lparr>algorithm = 1, heuristic = 1, initial_state = [[1, 2, 3], [4, 5, 6], [7, 0, 8]], max_queue_size = 0, depth_reported = 0, count_nodes_expanded = 0\<rparr> 1) \<and> y \<in> set (astar_frontier \<lparr>algorithm = 1, heuristic = 1, initial_state = [[1, 2, 3], [4, 5, 6], [7, 0, 8]], max_queue_size = 0, depth_reported = 0, count_nodes_expanded = 0\<rparr> 1) \<and>
      generate_children (snd x) None = Inr (chs, b') \<and> chs \<noteq> [] \<and>
      cost (snd x) = 0 \<and> fst x = fst y \<and> \<not> board_lt (snd x) (snd y) \<and> \<not> entry_lt x y \<and>
      list_all zero_costs chs"
  proof -
    let ?F = "astar_frontier \<lparr>algorithm = 1, heuristic = 1, initial_state = [[1, 2, 3], [4, 5, 6], [7, 0, 8]], max_queue_size = 0, depth_reported = 0, count_nodes_expanded = 0\<rparr> 1"
    have l: "length ?F = 3"
      using arg_cong [OF astar_frontier_example, of length] by simp
    have m: "map (\<lambda>e. (fst e, state (snd e))) ?F ! 1 = (fst (?F ! 1), state (snd (?F ! 1)))"
      "map (\<lambda>e. (fst e, state (snd e))) ?F ! 2 = (fst (?F ! 2), state (snd (?F ! 2)))"
      using l by simp_all
    have x: "?F ! 1 \<in> set ?F" and y: "?F ! 2 \<in> set ?F" using l by simp_all
    have f: "fst (?F ! 1) = fst (?F ! 2)" and s: "state (snd (?F ! 1)) \<noteq> state (snd (?F ! 2))"
      using m [symmetric] unfolding astar_frontier_example by simp_all
    from case_Inr_ex [OF astar_frontier_example_children] obtain chs b' where
      g: "generate_children (snd (?F ! 1)) None = Inr (chs, b')" and ne: "chs \<noteq> []"
      by auto
    from cost_stays_zero [OF disjI2 [OF refl] x y]
    have c: "cost (snd (?F ! 1)) = 0"
      and lt: "board_lt (snd (?F ! 1)) (snd (?F ! 2)) \<longleftrightarrow>
          state (snd (?F ! 1)) = state (snd (?F ! 2)) \<and> depth (snd (?F ! 1)) < depth (snd (?F ! 2))"
      and el: "entry_lt (?F ! 1) (?F ! 2) \<longleftrightarrow> fst (?F ! 1) < fst (?F ! 2)"
      and ch: "\<forall>visited chs b'. generate_children (snd (?F ! 1)) visited = Inr (chs, b')
          \<longrightarrow> list_all zero_costs chs \<and> zero_costs b'"
      by blast+
    have "list_all zero_costs chs" using ch g by blast
    moreover have "\<not> board_lt (snd (?F ! 1)) (snd (?F ! 2))" using lt s by simp
    moreover have "\<not> entry_lt (?F ! 1) (?F ! 2)" using el f by simp
    ultimately show ?thesis using x y g ne c f by blast
  qed
  show ?thesis using u a by (rule conjI)
qed

end
